theory Spec2Isabelle
  imports Main "HOL-Library.Word"
begin

section \<open>Strings of UTF-16 code units\<close>

text \<open>
  A JavaScript string is a finite sequence of 16-bit code units; \<open>length\<close>, \<open>charAt\<close>,
  \<open>slice\<close> and the regular expression engine (without the \<open>u\<close> flag) all count code
  units. String literals of the source are written \<open>js ''...''\<close>.
\<close>

type_synonym unit16 = "16 word"
type_synonym jsstring = "unit16 list"

definition js :: "string \<Rightarrow> jsstring" where
  "js cs = map of_char cs"

definition substring :: "jsstring \<Rightarrow> nat \<Rightarrow> nat \<Rightarrow> jsstring" where
  \<comment> \<open>the code units of \<open>S\<close> from index \<open>from\<close> (inclusive) to index \<open>to\<close> (exclusive)\<close>
  "substring S from to = take (to - from) (drop from S)"

text \<open>
  \<open>String.prototype.toUpperCase\<close> and \<open>toLowerCase\<close>, on the ASCII range. The source
  applies them to the text of a match of \<open>WORD_REGEX\<close> (the letters of "balaklavas" in either
  case, lemma \<open>matcher_ascii\<close> below) and to \<open>REPLACEMENT_BASE\<close> with or without \<open>'s'\<close>; code
  units outside \<open>a-z\<close> and \<open>A-Z\<close> are left as they are.
\<close>

definition toUpperUnit :: "unit16 \<Rightarrow> unit16" where
  "toUpperUnit u = (if 0x61 \<le> u \<and> u \<le> 0x7A then u - 0x20 else u)"

definition toLowerUnit :: "unit16 \<Rightarrow> unit16" where
  "toLowerUnit u = (if 0x41 \<le> u \<and> u \<le> 0x5A then u + 0x20 else u)"

definition toUpperCase :: "jsstring \<Rightarrow> jsstring" where
  "toUpperCase s = map toUpperUnit s"

definition toLowerCase :: "jsstring \<Rightarrow> jsstring" where
  "toLowerCase s = map toLowerUnit s"

definition charAt0 :: "jsstring \<Rightarrow> jsstring" where
  \<comment> \<open>\<open>s.charAt(0)\<close>: the first code unit as a string, the empty string when there is none\<close>
  "charAt0 s = take 1 s"

definition slice1 :: "jsstring \<Rightarrow> jsstring" where
  \<comment> \<open>\<open>s.slice(1)\<close>\<close>
  "slice1 s = drop 1 s"

section \<open>The regular expression \<open>/\b(balaklava)(s)?\b/gi\<close>\<close>

text \<open>
  The pattern is compiled without the \<open>u\<close> flag, so it runs on code units. The definitions
  follow the matcher semantics of ECMA-262: \<open>IsWordChar\<close> and the \<open>\b\<close> assertion,
  \<open>Canonicalize\<close> for the \<open>i\<close> flag, the greedy optional group with backtracking.
\<close>

definition is_word_unit :: "unit16 \<Rightarrow> bool" where
  \<comment> \<open>WordCharacters: \<open>a-z\<close>, \<open>A-Z\<close>, \<open>0-9\<close> and \<open>_\<close>\<close>
  "is_word_unit u =
     (0x61 \<le> u \<and> u \<le> 0x7A \<or> 0x41 \<le> u \<and> u \<le> 0x5A \<or> 0x30 \<le> u \<and> u \<le> 0x39 \<or> u = 0x5F)"

definition IsWordChar :: "jsstring \<Rightarrow> nat \<Rightarrow> bool" where
  \<comment> \<open>false at the end of the input (and before its start, see \<open>word_boundary\<close>)\<close>
  "IsWordChar S e = (e < length S \<and> is_word_unit (S ! e))"

definition word_boundary :: "jsstring \<Rightarrow> nat \<Rightarrow> bool" where
  \<comment> \<open>the assertion \<open>\b\<close> at index \<open>e\<close>: \<open>a\<close> is IsWordChar(e - 1), \<open>b\<close> is IsWordChar(e)\<close>
  "word_boundary S e =
     (let a = (0 < e \<and> IsWordChar S (e - 1)); b = IsWordChar S e in a \<noteq> b)"

definition Canonicalize :: "unit16 \<Rightarrow> unit16" where
  \<comment> \<open>case folding of the \<open>i\<close> flag: the upper-case form of the code unit. Beyond ASCII the
      standard never folds a code unit to one below 128, so no such unit equals a folded
      letter of the pattern; the model leaves those units unchanged.\<close>
  "Canonicalize u = toUpperUnit u"

fun match_chars :: "jsstring \<Rightarrow> jsstring \<Rightarrow> nat \<Rightarrow> nat option" where
  \<comment> \<open>the pattern characters one after the other from index \<open>e\<close>; the end index on success\<close>
  "match_chars [] S e = Some e"
| "match_chars (p # ps) S e =
     (if e < length S \<and> Canonicalize (S ! e) = Canonicalize p
      then match_chars ps S (Suc e) else None)"

record regexp_result =
  index :: nat                  \<comment> \<open>where the match starts\<close>
  matched :: jsstring           \<comment> \<open>the matched text, the callback's \<open>match\<close>\<close>
  base :: jsstring              \<comment> \<open>capture group 1\<close>
  plural :: "jsstring option"   \<comment> \<open>capture group 2, \<open>undefined\<close> when it did not take part\<close>

definition WORD_REGEX_matcher :: "jsstring \<Rightarrow> nat \<Rightarrow> regexp_result option" where
  \<comment> \<open>one attempt to match the whole pattern at index \<open>i\<close>. The group \<open>(s)?\<close> is greedy: the
      continuation \<open>\b\<close> is tried with the \<open>s\<close> first, and without it when that fails.\<close>
  "WORD_REGEX_matcher S i =
     (if \<not> word_boundary S i then None
      else case match_chars (js ''balaklava'') S i of
        None \<Rightarrow> None
      | Some e1 \<Rightarrow>
          (case (case match_chars (js ''s'') S e1 of
                   None \<Rightarrow> None
                 | Some e2 \<Rightarrow> if word_boundary S e2 then Some e2 else None) of
             Some e2 \<Rightarrow>
               Some \<lparr>index = i, matched = substring S i e2, base = substring S i e1,
                     plural = Some (substring S e1 e2)\<rparr>
           | None \<Rightarrow>
               if word_boundary S e1
               then Some \<lparr>index = i, matched = substring S i e1, base = substring S i e1,
                          plural = None\<rparr>
               else None))"

text \<open>
  The search loop of \<open>RegExpBuiltinExec\<close> for an expression that is not sticky: the search
  starts at the index \<open>lastIndex\<close> and tries every index up to the length of the input. It
  returns the match (or \<open>null\<close>) with the end of the match, or 0 on failure: the value
  written to the property \<open>lastIndex\<close> when the flag \<open>g\<close> is set (see \<open>RegExpExec\<close> below).
\<close>

function RegExpBuiltinExec :: "jsstring \<Rightarrow> nat \<Rightarrow> regexp_result option \<times> nat" where
  "RegExpBuiltinExec S lastIndex =
     (if lastIndex > length S then (None, 0)
      else case WORD_REGEX_matcher S lastIndex of
        None \<Rightarrow> RegExpBuiltinExec S (lastIndex + 1)
      | Some r \<Rightarrow> (Some r, index r + length (matched r)))"
  by pat_completeness auto
termination
  by (relation "measure (\<lambda>(S, lastIndex). Suc (length S) - lastIndex)") auto

declare RegExpBuiltinExec.simps [simp del]

lemma matcher_index: "WORD_REGEX_matcher S i = Some r \<Longrightarrow> index r = i"
  by (auto simp: WORD_REGEX_matcher_def split: if_splits option.splits)

lemma exec_result:
  "RegExpBuiltinExec S li = (Some r, e) \<Longrightarrow>
     li \<le> index r \<and> index r \<le> length S \<and> e = index r + length (matched r) \<and>
     WORD_REGEX_matcher S (index r) = Some r"
proof (induction S li rule: RegExpBuiltinExec.induct)
  case (1 S li)
  show ?case
  proof (cases "WORD_REGEX_matcher S li")
    case None
    with "1.prems" have le: "\<not> li > length S" and rec: "RegExpBuiltinExec S (li + 1) = (Some r, e)"
      by (auto simp: RegExpBuiltinExec.simps [of S li] split: if_splits)
    from "1.IH" [OF le None rec] show ?thesis by simp
  next
    case (Some r')
    with "1.prems" have "\<not> li > length S" "r' = r" "e = index r + length (matched r)"
      by (auto simp: RegExpBuiltinExec.simps [of S li] split: if_splits)
    with Some matcher_index [of S li r] show ?thesis by simp
  qed
qed

text \<open>
  The loop of \<open>RegExp.prototype[Symbol.replace]\<close> as it runs for an expression with \<open>g\<close> and
  without \<open>y\<close>, on the bare value of \<open>lastIndex\<close>: \<open>exec\<close> is called until it returns
  \<open>null\<close>; after an empty match \<open>lastIndex\<close> is advanced by one. It returns the results in
  the order found and the final \<open>lastIndex\<close>. The loop on the expression object, for any
  flags, is \<open>replace_results\<close> below; lemma \<open>replace_results_global\<close> says that the two agree
  for \<open>WORD_REGEX\<close>.
\<close>

function collect_results :: "jsstring \<Rightarrow> nat \<Rightarrow> regexp_result list \<times> nat" where
  "collect_results S lastIndex =
     (case RegExpBuiltinExec S lastIndex of
        (None, li) \<Rightarrow> ([], li)
      | (Some r, li) \<Rightarrow>
          (let thisIndex = (if matched r = [] then li + 1 else li);
               (rs, li') = collect_results S thisIndex
           in (r # rs, li')))"
  by pat_completeness auto
termination
proof (relation "measure (\<lambda>(S, lastIndex). Suc (length S) - lastIndex)")
  show "wf (measure (\<lambda>(S, lastIndex). Suc (length S) - lastIndex))" by simp
next
  fix S :: jsstring and lastIndex :: nat and x li r thisIndex
  assume "(x, li) = RegExpBuiltinExec S lastIndex" and "x = Some r"
    and ti: "thisIndex = (if matched r = [] then li + 1 else li)"
  then have "RegExpBuiltinExec S lastIndex = (Some r, li)" by simp
  from exec_result [OF this] ti
  show "((S, thisIndex), (S, lastIndex)) \<in> measure (\<lambda>(S, lastIndex). Suc (length S) - lastIndex)"
    by (cases "matched r") auto
qed

declare collect_results.simps [simp del]

section \<open>The replacement callback\<close>

definition REPLACEMENT_BASE :: jsstring where
  "REPLACEMENT_BASE = js ''baklava''"

definition applyCasing :: "jsstring \<Rightarrow> jsstring \<Rightarrow> jsstring" where
  "applyCasing template target =
     (if toUpperCase template = template then toUpperCase target
      else if toLowerCase template = template then toLowerCase target
      else let first = charAt0 template; rest = slice1 template in
        if toUpperCase first = first \<and> toLowerCase rest = rest
        then toUpperCase (charAt0 target) @ toLowerCase (slice1 target)
        else target)"

definition truthy :: "jsstring option \<Rightarrow> bool" where
  \<comment> \<open>\<open>undefined\<close> and the empty string are falsy\<close>
  "truthy v = (case v of None \<Rightarrow> False | Some s \<Rightarrow> s \<noteq> [])"

definition replacer :: "regexp_result \<Rightarrow> jsstring" where
  \<comment> \<open>the arrow function \<open>(match, base, plural) => ...\<close> passed to \<open>replace\<close>\<close>
  "replacer r =
     (let replacementFull = REPLACEMENT_BASE @ (if truthy (plural r) then js ''s'' else js [])
      in applyCasing (matched r) replacementFull)"

text \<open>
  The second half of \<open>RegExp.prototype[Symbol.replace]\<close>: the results are spliced into the
  input from left to right, \<open>nextSourcePosition\<close> being the end of the last match spliced.
\<close>

fun assemble :: "jsstring \<Rightarrow> regexp_result list \<Rightarrow> nat \<Rightarrow> jsstring" where
  "assemble S [] nextSourcePosition = drop nextSourcePosition S"
| "assemble S (r # rs) nextSourcePosition =
     (let position = min (index r) (length S); replacement = replacer r in
      if position \<ge> nextSourcePosition
      then substring S nextSourcePosition position @ replacement
             @ assemble S rs (position + length (matched r))
      else assemble S rs nextSourcePosition)"

section \<open>The shared expression object and \<open>replace\<close>\<close>

text \<open>
  \<open>WORD_REGEX\<close> is one object, created once by the literal \<open>/\b(balaklava)(s)?\b/gi\<close> and
  used by every call. Its flags are fixed by the literal; its property \<open>lastIndex\<close> is
  mutable state that \<open>exec\<close> reads and writes. The object is modelled with the two flags that
  decide how \<open>lastIndex\<close> is used, \<open>g\<close> and \<open>y\<close>, and the operations of ECMA-262 take the
  object and return it as they leave it.
\<close>

record regexp =
  rx_global :: bool     \<comment> \<open>the flag \<open>g\<close>\<close>
  rx_sticky :: bool     \<comment> \<open>the flag \<open>y\<close>\<close>
  rx_lastIndex :: nat   \<comment> \<open>the property \<open>lastIndex\<close>\<close>

definition WORD_REGEX :: "nat \<Rightarrow> regexp" where
  \<comment> \<open>the object of the source when its \<open>lastIndex\<close> is \<open>li\<close> (0 when the literal creates it):
      \<open>g\<close> is set, \<open>y\<close> is not\<close>
  "WORD_REGEX li = \<lparr>rx_global = True, rx_sticky = False, rx_lastIndex = li\<rparr>"

text \<open>
  \<open>RegExpExec\<close>, that is \<open>RegExpBuiltinExec\<close> with the flags: the search starts at
  \<open>lastIndex\<close> when \<open>g\<close> or \<open>y\<close> is set and at 0 otherwise; a sticky expression tries that
  one index only; \<open>lastIndex\<close> is written (the end of the match, 0 on failure) when \<open>g\<close> or
  \<open>y\<close> is set.
\<close>

definition RegExpExec :: "regexp \<Rightarrow> jsstring \<Rightarrow> regexp_result option \<times> regexp" where
  "RegExpExec rx S =
     (let lastIndex = (if rx_global rx \<or> rx_sticky rx then rx_lastIndex rx else 0) in
      if rx_sticky rx then
        (if lastIndex > length S then (None, rx\<lparr>rx_lastIndex := 0\<rparr>)
         else case WORD_REGEX_matcher S lastIndex of
           None \<Rightarrow> (None, rx\<lparr>rx_lastIndex := 0\<rparr>)
         | Some r \<Rightarrow> (Some r, rx\<lparr>rx_lastIndex := index r + length (matched r)\<rparr>))
      else
        (let (result, li) = RegExpBuiltinExec S lastIndex in
         (result, if rx_global rx then rx\<lparr>rx_lastIndex := li\<rparr> else rx)))"

lemma RegExpExec_result:
  assumes "RegExpExec rx S = (Some r, rx')"
  shows "rx_global rx' = rx_global rx" and "rx_sticky rx' = rx_sticky rx"
    and "WORD_REGEX_matcher S (index r) = Some r"
    and "rx_global rx \<Longrightarrow> rx_lastIndex rx \<le> index r \<and> index r \<le> length S \<and>
           rx_lastIndex rx' = index r + length (matched r)"
proof -
  show "rx_global rx' = rx_global rx" "rx_sticky rx' = rx_sticky rx"
    using assms
    by (auto simp: RegExpExec_def Let_def split_beta split: if_splits option.splits)
  show m: "WORD_REGEX_matcher S (index r) = Some r"
  proof (cases "rx_sticky rx")
    case True
    with assms matcher_index [of S _ r] show ?thesis
      by (auto simp: RegExpExec_def Let_def split: if_splits option.splits)
  next
    case False
    with assms have "RegExpBuiltinExec S (if rx_global rx then rx_lastIndex rx else 0)
        = (Some r, snd (RegExpBuiltinExec S (if rx_global rx then rx_lastIndex rx else 0)))"
      by (auto simp: RegExpExec_def Let_def split_beta prod_eq_iff)
    from exec_result [OF this] show ?thesis by simp
  qed
  show "rx_lastIndex rx \<le> index r \<and> index r \<le> length S \<and>
           rx_lastIndex rx' = index r + length (matched r)" if g: "rx_global rx"
  proof (cases "rx_sticky rx")
    case True
    with assms g matcher_index [of S "rx_lastIndex rx" r] show ?thesis
      by (auto simp: RegExpExec_def Let_def split: if_splits option.splits)
  next
    case False
    with assms g have e: "RegExpBuiltinExec S (rx_lastIndex rx)
        = (Some r, snd (RegExpBuiltinExec S (rx_lastIndex rx)))"
      and l: "rx_lastIndex rx' = snd (RegExpBuiltinExec S (rx_lastIndex rx))"
      by (auto simp: RegExpExec_def Let_def split_beta prod_eq_iff)
    from exec_result [OF e] l show ?thesis by simp
  qed
qed

text \<open>
  \<open>RegExp.prototype[Symbol.replace]\<close>, which \<open>String.prototype.replace\<close> calls. When \<open>g\<close> is
  set it first sets \<open>lastIndex\<close> to 0. Then \<open>exec\<close> is called until it returns \<open>null\<close>, once
  only when \<open>g\<close> is not set; after an empty match \<open>lastIndex\<close> is advanced by one. The results
  are then spliced into the input.
\<close>

function replace_results :: "regexp \<Rightarrow> jsstring \<Rightarrow> regexp_result list \<times> regexp" where
  "replace_results rx S =
     (case RegExpExec rx S of
        (None, rx1) \<Rightarrow> ([], rx1)
      | (Some r, rx1) \<Rightarrow>
          if \<not> rx_global rx1 then ([r], rx1)
          else
            (let rx2 = (if matched r = [] then rx1\<lparr>rx_lastIndex := rx_lastIndex rx1 + 1\<rparr> else rx1);
                 (rs, rx3) = replace_results rx2 S
             in (r # rs, rx3)))"
  by pat_completeness auto
termination
proof (relation "measure (\<lambda>(rx, S). Suc (length S) - rx_lastIndex rx)")
  show "wf (measure (\<lambda>(rx, S). Suc (length S) - rx_lastIndex rx))" by simp
next
  fix rx :: regexp and S :: jsstring and x rx1 r rx2
  assume "(x, rx1) = RegExpExec rx S" and "x = Some r" and g: "\<not> \<not> rx_global rx1"
    and r2: "rx2 = (if matched r = [] then rx1\<lparr>rx_lastIndex := rx_lastIndex rx1 + 1\<rparr> else rx1)"
  then have e: "RegExpExec rx S = (Some r, rx1)" by simp
  from RegExpExec_result(1) [OF e] g have "rx_global rx" by simp
  from RegExpExec_result(4) [OF e this] r2
  show "((rx2, S), (rx, S)) \<in> measure (\<lambda>(rx, S). Suc (length S) - rx_lastIndex rx)"
    by (cases "matched r") auto
qed

declare replace_results.simps [simp del]

definition RegExp_replace :: "regexp \<Rightarrow> jsstring \<Rightarrow> jsstring \<times> regexp" where
  "RegExp_replace rx S =
     (let rx0 = (if rx_global rx then rx\<lparr>rx_lastIndex := 0\<rparr> else rx);
          (results, rx') = replace_results rx0 S
      in (assemble S results 0, rx'))"

text \<open>
  \<open>substitute\<close> is the expression \<open>original.replace(WORD_REGEX, callback)\<close> of
  \<open>replaceInTextNode\<close>, on the shared object: it takes the value that \<open>lastIndex\<close> has
  before the call and returns the new string with the value that \<open>lastIndex\<close> has after it.
\<close>

definition substitute :: "nat \<Rightarrow> jsstring \<Rightarrow> jsstring \<times> nat" where
  "substitute lastIndex S =
     (let (replaced, rx') = RegExp_replace (WORD_REGEX lastIndex) S
      in (replaced, rx_lastIndex rx'))"

text \<open>
  For an expression with \<open>g\<close> and without \<open>y\<close>, as \<open>WORD_REGEX\<close> is, the calls of \<open>exec\<close>
  are the search loop from \<open>lastIndex\<close> and the loop of \<open>replace\<close> is \<open>collect_results\<close>.
\<close>

lemma RegExpExec_global:
  assumes "rx_global rx" and "\<not> rx_sticky rx"
  shows "RegExpExec rx S =
           (fst (RegExpBuiltinExec S (rx_lastIndex rx)),
            rx\<lparr>rx_lastIndex := snd (RegExpBuiltinExec S (rx_lastIndex rx))\<rparr>)"
  using assms by (simp add: RegExpExec_def split_beta Let_def)

lemma replace_results_global:
  "rx_global rx \<Longrightarrow> \<not> rx_sticky rx \<Longrightarrow> rx_lastIndex rx = li \<Longrightarrow>
     replace_results rx S =
       (fst (collect_results S li), rx\<lparr>rx_lastIndex := snd (collect_results S li)\<rparr>)"
proof (induction S li arbitrary: rx rule: collect_results.induct)
  case (1 S li)
  note g = "1.prems"(1) and s = "1.prems"(2) and l = "1.prems"(3)
  show ?case
  proof (cases "RegExpBuiltinExec S li")
    case (Pair ro e)
    show ?thesis
    proof (cases ro)
      case None
      with Pair g s l show ?thesis
        by (simp add: replace_results.simps [of rx S] collect_results.simps [of S li]
            RegExpExec_global)
    next
      case (Some r)
      define ti where "ti = (if matched r = [] then e + 1 else e)"
      define rx2 where "rx2 = rx\<lparr>rx_lastIndex := ti\<rparr>"
      have "rx_global rx2" "\<not> rx_sticky rx2" "rx_lastIndex rx2 = ti"
        using g s by (simp_all add: rx2_def)
      from "1.IH" [OF Pair [symmetric] Some ti_def this]
      have ih: "replace_results rx2 S =
          (fst (collect_results S ti), rx2\<lparr>rx_lastIndex := snd (collect_results S ti)\<rparr>)" .
      from Pair Some g s l have ex: "RegExpExec rx S = (Some r, rx\<lparr>rx_lastIndex := e\<rparr>)"
        by (simp add: RegExpExec_global)
      have r2: "(if matched r = [] then rx\<lparr>rx_lastIndex := e\<rparr>
                    \<lparr>rx_lastIndex := rx_lastIndex (rx\<lparr>rx_lastIndex := e\<rparr>) + 1\<rparr>
                 else rx\<lparr>rx_lastIndex := e\<rparr>) = rx2"
        by (simp add: rx2_def ti_def)
      have "replace_results rx S
              = (r # fst (replace_results rx2 S), snd (replace_results rx2 S))"
        using g by (simp add: replace_results.simps [of rx S] ex r2 split_beta Let_def)
      moreover have "collect_results S li
              = (r # fst (collect_results S ti), snd (collect_results S ti))"
        using Pair Some by (simp add: collect_results.simps [of S li] ti_def split_beta Let_def)
      moreover have "rx2\<lparr>rx_lastIndex := k\<rparr> = rx\<lparr>rx_lastIndex := k\<rparr>" for k
        by (simp add: rx2_def)
      ultimately show ?thesis by (simp add: ih)
    qed
  qed
qed

lemma substitute_collect:
  "substitute li S = (assemble S (fst (collect_results S 0)) 0, snd (collect_results S 0))"
  by (simp add: substitute_def RegExp_replace_def WORD_REGEX_def replace_results_global [of _ 0]
      split_beta Let_def)

section \<open>The substitution read from left to right\<close>

text \<open>
  The proofs below reason about one position of the input at a time: \<open>match_here a t\<close> is
  the attempt of \<open>WORD_REGEX_matcher\<close> at the position whose remaining input is \<open>t\<close>, where
  \<open>a\<close> says whether the code unit before it is a word character. It succeeds exactly when the
  run of word characters at the front of \<open>t\<close> (its \<open>token\<close>) is "balaklava" or "balaklavas"
  in any casing and no word character precedes it.
\<close>

definition token :: "jsstring \<Rightarrow> jsstring" where
  "token t = takeWhile is_word_unit t"

definition ci_eq :: "jsstring \<Rightarrow> jsstring \<Rightarrow> bool" where
  "ci_eq x y = (map Canonicalize x = map Canonicalize y)"

definition starts_word :: "jsstring \<Rightarrow> bool" where
  "starts_word t = (case t of [] \<Rightarrow> False | c # _ \<Rightarrow> is_word_unit c)"

definition prev_word :: "jsstring \<Rightarrow> nat \<Rightarrow> bool" where
  "prev_word S i = (0 < i \<and> IsWordChar S (i - 1))"

definition match_here :: "bool \<Rightarrow> jsstring \<Rightarrow> nat option" where
  "match_here a t =
     (if a = starts_word t then None
      else if \<not> (9 \<le> length t \<and> ci_eq (take 9 t) (js ''balaklava'')) then None
      else if 10 \<le> length t \<and> ci_eq (take 1 (drop 9 t)) (js ''s'') \<and> \<not> starts_word (drop 10 t)
      then Some 10
      else if \<not> starts_word (drop 9 t) then Some 9
      else None)"

lemma upper_range: "0x61 \<le> (u::unit16) \<Longrightarrow> u \<le> 0x7A \<Longrightarrow> 0x41 \<le> u - 0x20 \<and> u - 0x20 \<le> 0x5A"
  by unat_arith

lemma is_word_toUpper: "is_word_unit (toUpperUnit u) = is_word_unit u"
  unfolding is_word_unit_def toUpperUnit_def
  using upper_range [of u] by auto

lemma canon_word: "Canonicalize u = Canonicalize p \<Longrightarrow> is_word_unit u = is_word_unit p"
  by (metis Canonicalize_def is_word_toUpper)

lemma ci_eq_length: "ci_eq x y \<Longrightarrow> length x = length y"
  unfolding ci_eq_def by (rule map_eq_imp_length_eq)

lemma ci_eq_word: "ci_eq x y \<Longrightarrow> list_all is_word_unit x = list_all is_word_unit y"
  unfolding ci_eq_def
proof (induction x arbitrary: y)
  case Nil then show ?case by simp
next
  case (Cons u x)
  then obtain p y' where y: "y = p # y'" by (cases y) auto
  with Cons.prems have "Canonicalize u = Canonicalize p" "map Canonicalize x = map Canonicalize y'"
    by auto
  with Cons.IH [of y'] canon_word [of u p] y show ?case by simp
qed

lemma IsWordChar_drop: "IsWordChar S e = starts_word (drop e S)"
proof (cases "e < length S")
  case True
  then have "drop e S = S ! e # drop (Suc e) S" by (simp add: Cons_nth_drop_Suc)
  with True show ?thesis by (simp add: IsWordChar_def starts_word_def)
next
  case False
  then show ?thesis by (simp add: IsWordChar_def starts_word_def)
qed

lemma word_boundary_drop: "word_boundary S e = (prev_word S e \<noteq> starts_word (drop e S))"
  by (simp add: word_boundary_def prev_word_def IsWordChar_drop Let_def)

lemma match_chars_take:
  "match_chars p S e =
     (if length p \<le> length (drop e S) \<and> ci_eq (take (length p) (drop e S)) p
      then Some (e + length p) else None)"
proof (induction p arbitrary: e)
  case Nil
  then show ?case by (simp add: ci_eq_def)
next
  case (Cons c p)
  show ?case
  proof (cases "e < length S")
    case True
    then have d: "drop e S = S ! e # drop (Suc e) S" by (simp add: Cons_nth_drop_Suc)
    show ?thesis using True Cons.IH [of "Suc e"] by (auto simp: d ci_eq_def)
  next
    case False
    then show ?thesis by simp
  qed
qed

lemma js_lengths [simp]: "length (js cs) = length cs"
  by (simp add: js_def)

lemma starts_word_drop_take:
  "list_all is_word_unit (take n t) \<Longrightarrow> k < n \<Longrightarrow> n \<le> length t \<Longrightarrow> starts_word (drop k t)"
proof -
  assume a: "list_all is_word_unit (take n t)" and k: "k < n" and n: "n \<le> length t"
  from k n have d: "drop k t = t ! k # drop (Suc k) t" by (simp add: Cons_nth_drop_Suc)
  from a k n have "is_word_unit (take n t ! k)" by (simp add: list_all_length)
  with k d show ?thesis by (simp add: starts_word_def)
qed

lemma balaklava_word: "list_all is_word_unit (js ''balaklava'')"
  by (simp add: js_def is_word_unit_def)

lemma s_word: "list_all is_word_unit (js ''s'')"
  by (simp add: js_def is_word_unit_def)

lemma prev_word_Suc: "prev_word S (i + Suc k) = starts_word (drop k (drop i S))"
  by (simp add: prev_word_def IsWordChar_drop add.commute)

lemma matcher_match_here:
  "WORD_REGEX_matcher S i =
     map_option (\<lambda>n. \<lparr>index = i, matched = take n (drop i S), base = take 9 (drop i S),
                      plural = (if n = 10 then Some (take 1 (drop 9 (drop i S))) else None)\<rparr>)
       (match_here (prev_word S i) (drop i S))"
proof -
  define t where "t = drop i S"
  define a where "a = prev_word S i"
  define C9 where "C9 = (9 \<le> length t \<and> ci_eq (take 9 t) (js ''balaklava''))"
  define Cs where "Cs = (10 \<le> length t \<and> ci_eq (take 1 (drop 9 t)) (js ''s''))"
  have d9: "drop (i + 9) S = drop 9 t" and d10: "drop (i + 10) S = drop 10 t"
    by (simp_all add: t_def add.commute)
  have len9: "length (js ''balaklava'') = 9" and len1: "length (js ''s'') = 1" by simp_all
  have wb: "word_boundary S i = (a \<noteq> starts_word t)"
    by (simp add: word_boundary_drop a_def t_def)
  have mc9: "match_chars (js ''balaklava'') S i = (if C9 then Some (i + 9) else None)"
    unfolding match_chars_take len9 C9_def t_def by simp
  have mcs: "match_chars (js ''s'') S (i + 9) = (if Cs then Some (i + 10) else None)"
    unfolding match_chars_take len1 Cs_def d9 by auto
  have wb9: "word_boundary S (i + 9) = (\<not> starts_word (drop 9 t))" if C9
  proof -
    from that ci_eq_word balaklava_word have "list_all is_word_unit (take 9 t)"
      unfolding C9_def by blast
    moreover have "(8::nat) < 9" "9 \<le> length t" using that by (simp_all add: C9_def)
    ultimately have "starts_word (drop 8 t)" by (rule starts_word_drop_take)
    with prev_word_Suc [of S i 8] have "prev_word S (i + 9)" by (simp add: t_def)
    then show ?thesis by (simp add: word_boundary_drop d9)
  qed
  have wb10: "word_boundary S (i + 10) = (\<not> starts_word (drop 10 t))" if Cs
  proof -
    from that ci_eq_word s_word have "list_all is_word_unit (take 1 (drop 9 t))"
      unfolding Cs_def by blast
    moreover have "(0::nat) < 1" "1 \<le> length (drop 9 t)" using that by (auto simp: Cs_def)
    ultimately have "starts_word (drop 0 (drop 9 t))" by (rule starts_word_drop_take)
    with prev_word_Suc [of S i 9] have "prev_word S (i + 10)" by (simp add: t_def)
    then show ?thesis by (simp add: word_boundary_drop d10)
  qed
  have sub: "substring S i (i + n) = take n t" for n by (simp add: substring_def t_def)
  have subs: "substring S (i + 9) (i + 10) = take 1 (drop 9 t)" by (simp add: substring_def d9)
  have lhs: "WORD_REGEX_matcher S i =
     (if a = starts_word t then None
      else if \<not> C9 then None
      else if Cs \<and> \<not> starts_word (drop 10 t)
        then Some \<lparr>index = i, matched = take 10 t, base = take 9 t, plural = Some (take 1 (drop 9 t))\<rparr>
      else if \<not> starts_word (drop 9 t)
        then Some \<lparr>index = i, matched = take 9 t, base = take 9 t, plural = None\<rparr>
      else None)"
  proof (cases "a = starts_word t")
    case True
    then show ?thesis by (simp add: WORD_REGEX_matcher_def wb)
  next
    case nb: False
    show ?thesis
    proof (cases C9)
      case False
      then show ?thesis using nb by (simp add: WORD_REGEX_matcher_def wb mc9)
    next
      case c9: True
      show ?thesis
      proof (cases Cs)
        case True
        then show ?thesis using nb c9
          by (simp add: WORD_REGEX_matcher_def wb mc9 mcs wb9 [OF c9] wb10 [OF True] sub subs)
      next
        case False
        then show ?thesis using nb c9
          by (simp add: WORD_REGEX_matcher_def wb mc9 mcs wb9 [OF c9] sub subs)
      qed
    qed
  qed
  have rhs: "match_here a t =
     (if a = starts_word t then None
      else if \<not> C9 then None
      else if Cs \<and> \<not> starts_word (drop 10 t) then Some 10
      else if \<not> starts_word (drop 9 t) then Some 9
      else None)"
    by (simp add: match_here_def C9_def Cs_def)
  show ?thesis
    unfolding lhs a_def [symmetric] t_def [symmetric] rhs by simp
qed

definition pattern_text :: "nat \<Rightarrow> jsstring" where
  "pattern_text n = (if n = 10 then js ''balaklavas'' else js ''balaklava'')"

lemma target_word: "list_all is_word_unit (pattern_text n)"
  by (simp add: pattern_text_def js_def is_word_unit_def)

lemma target_length: "n = 9 \<or> n = 10 \<Longrightarrow> length (pattern_text n) = n"
  by (auto simp: pattern_text_def)

lemma target_10: "pattern_text 10 = js ''balaklava'' @ js ''s''"
  by (simp add: pattern_text_def js_def)

lemma target_9: "pattern_text 9 = js ''balaklava''"
  by (simp add: pattern_text_def)

lemma ci_eq_take: "ci_eq x y \<Longrightarrow> ci_eq (take n x) (take n y)"
  by (simp add: ci_eq_def take_map [symmetric])

lemma ci_eq_drop: "ci_eq x y \<Longrightarrow> ci_eq (drop n x) (drop n y)"
  by (simp add: ci_eq_def drop_map [symmetric])

lemma ci_eq_append: "ci_eq x y \<Longrightarrow> ci_eq x' y' \<Longrightarrow> ci_eq (x @ x') (y @ y')"
  by (simp add: ci_eq_def)

lemma starts_word_append: "list_all is_word_unit k \<Longrightarrow> \<not> starts_word r \<Longrightarrow> starts_word (k @ r) = (k \<noteq> [])"
  by (cases k) (simp_all add: starts_word_def)

lemma token_append: "list_all is_word_unit k \<Longrightarrow> \<not> starts_word r \<Longrightarrow> token (k @ r) = k"
  unfolding token_def
  by (cases r) (auto simp: starts_word_def list_all_iff takeWhile_append2 intro: takeWhile_eq_all_conv [THEN iffD2])

lemma token_split: "t = token t @ dropWhile is_word_unit t"
  by (simp add: token_def)

lemma token_word: "list_all is_word_unit (token t)"
  by (auto simp: token_def list_all_iff dest: set_takeWhileD)

lemma token_rest: "\<not> starts_word (dropWhile is_word_unit t)"
proof (cases "dropWhile is_word_unit t")
  case Nil
  show ?thesis unfolding starts_word_def Nil by simp
next
  case (Cons c r)
  from hd_dropWhile [of is_word_unit t] show ?thesis unfolding starts_word_def Cons by simp
qed

lemma match_here_Some:
  assumes "match_here a t = Some n"
  shows "\<not> a" and "n = 9 \<or> n = 10" and "n \<le> length t" and "ci_eq (take n t) (pattern_text n)"
    and "\<not> starts_word (drop n t)"
proof -
  from assms have sw: "a \<noteq> starts_word t"
    and c9: "9 \<le> length t" "ci_eq (take 9 t) (js ''balaklava'')"
    by (auto simp: match_here_def split: if_splits)
  from c9 ci_eq_word balaklava_word have "list_all is_word_unit (take 9 t)" by blast
  from starts_word_drop_take [OF this, of 0] c9(1) have "starts_word (drop 0 t)" by simp
  with sw show "\<not> a" by simp
  from assms show "n = 9 \<or> n = 10" "n \<le> length t" "\<not> starts_word (drop n t)"
    by (auto simp: match_here_def split: if_splits)
  show "ci_eq (take n t) (pattern_text n)"
  proof (cases "n = 10")
    case True
    with assms have "ci_eq (take 1 (drop 9 t)) (js ''s'')"
      by (auto simp: match_here_def split: if_splits)
    with c9(2) have "ci_eq (take 9 t @ take 1 (drop 9 t)) (pattern_text 10)"
      unfolding target_10 by (rule ci_eq_append)
    moreover have "take 9 t @ take 1 (drop 9 t) = take 10 t"
      using take_add [of 9 1 t] by simp
    ultimately show ?thesis using True by simp
  next
    case False
    with assms have "n = 9" by (auto simp: match_here_def split: if_splits)
    with c9(2) show ?thesis by (simp add: target_9)
  qed
qed

lemma target_take9: "n = 9 \<or> n = 10 \<Longrightarrow> take 9 (pattern_text n) = js ''balaklava''"
  by (auto simp: pattern_text_def js_def)

lemma target_drop9: "drop 9 (pattern_text 10) = js ''s''"
  by (simp add: pattern_text_def js_def)

lemma ci_eq_starts_word: "ci_eq (take 1 r) (js ''s'') \<Longrightarrow> starts_word r"
proof -
  assume a: "ci_eq (take 1 r) (js ''s'')"
  with ci_eq_word s_word have w: "list_all is_word_unit (take 1 r)" by blast
  from ci_eq_length [OF a] have "1 \<le> length r" by (cases r) simp_all
  from starts_word_drop_take [OF w _ this, of 0] show ?thesis by simp
qed

lemma match_here_intro:
  assumes a: "\<not> a" and n: "n = 9 \<or> n = 10" and k: "ci_eq k (pattern_text n)" and r: "\<not> starts_word r"
  shows "match_here a (k @ r) = Some n"
proof -
  from ci_eq_length [OF k] n have len: "length k = n" by (simp add: target_length)
  from k ci_eq_word target_word have w: "list_all is_word_unit k" by blast
  from len n have ne: "k \<noteq> []" by auto
  with w r have sw: "starts_word (k @ r)" by (simp add: starts_word_append)
  from len n have l9: "9 \<le> length (k @ r)" by auto
  from len n have "take 9 (k @ r) = take 9 k" by auto
  moreover from ci_eq_take [OF k, of 9] target_take9 [OF n]
  have "ci_eq (take 9 k) (js ''balaklava'')" by simp
  ultimately have c9: "ci_eq (take 9 (k @ r)) (js ''balaklava'')" by (simp only:)
  from a sw have A: "(a = starts_word (k @ r)) = False" by simp
  from l9 c9 have B: "(9 \<le> length (k @ r) \<and> ci_eq (take 9 (k @ r)) (js ''balaklava'')) = True"
    by (simp only: simp_thms)
  from n show ?thesis
  proof
    assume n9: "n = 9"
    with len have d: "drop 9 (k @ r) = r" by simp
    from r ci_eq_starts_word have "\<not> ci_eq (take 1 r) (js ''s'')" by blast
    then have C: "(10 \<le> length (k @ r) \<and> ci_eq (take 1 (drop 9 (k @ r))) (js ''s'') \<and>
        \<not> starts_word (drop 10 (k @ r))) = False"
      by (simp only: d simp_thms)
    from r have D: "(\<not> starts_word (drop 9 (k @ r))) = True" by (simp only: d simp_thms)
    show ?thesis by (simp only: match_here_def A B C D n9 if_True if_False simp_thms)
  next
    assume n10: "n = 10"
    with len have d: "drop 10 (k @ r) = r" and t1: "take 1 (drop 9 (k @ r)) = drop 9 k"
      by simp_all
    from ci_eq_drop [OF k, of 9] n10 have "ci_eq (drop 9 k) (js ''s'')" by (simp add: target_drop9)
    moreover from len n10 have "10 \<le> length (k @ r)" by simp
    ultimately have C: "(10 \<le> length (k @ r) \<and> ci_eq (take 1 (drop 9 (k @ r))) (js ''s'') \<and>
        \<not> starts_word (drop 10 (k @ r))) = True"
      using r by (simp only: d t1 simp_thms)
    show ?thesis by (simp only: match_here_def A B C n10 if_True if_False simp_thms)
  qed
qed

lemma match_here_token:
  "match_here a t = Some n \<longleftrightarrow> \<not> a \<and> (n = 9 \<or> n = 10) \<and> ci_eq (token t) (pattern_text n)"
proof
  assume m: "match_here a t = Some n"
  note f = match_here_Some [OF m]
  from f(4) ci_eq_word target_word have "list_all is_word_unit (take n t)" by blast
  from token_append [OF this f(5)] have "token t = take n t" by simp
  with f show "\<not> a \<and> (n = 9 \<or> n = 10) \<and> ci_eq (token t) (pattern_text n)" by simp
next
  assume "\<not> a \<and> (n = 9 \<or> n = 10) \<and> ci_eq (token t) (pattern_text n)"
  then have "match_here a (token t @ dropWhile is_word_unit t) = Some n"
    by (intro match_here_intro token_rest) simp_all
  then show "match_here a t = Some n" by (simp add: token_split [symmetric])
qed

lemma match_here_local: "token t = token t' \<Longrightarrow> match_here a t = match_here a t'"
proof -
  assume tt: "token t = token t'"
  have h: "match_here a t = Some n \<longleftrightarrow> match_here a t' = Some n" for n
    unfolding match_here_token tt ..
  show ?thesis
  proof (cases "match_here a t")
    case (Some n)
    with h [of n] show ?thesis by simp
  next
    case None
    have "match_here a t' = None"
    proof (cases "match_here a t'")
      case (Some m)
      with h [of m] None show ?thesis by simp
    qed simp
    with None show ?thesis by simp
  qed
qed

text \<open>
  \<open>scan a t\<close> is the result of the replacement on the remaining input \<open>t\<close>: at a match the
  callback's result and then the input after the match, else the code unit as it is.
  \<open>replacement m\<close> is what the callback returns for the matched text \<open>m\<close>.
\<close>

definition replacement :: "jsstring \<Rightarrow> jsstring" where
  "replacement m =
     applyCasing m (REPLACEMENT_BASE @ (if length m = 10 then js ''s'' else js []))"

function scan :: "bool \<Rightarrow> jsstring \<Rightarrow> jsstring" where
  "scan a [] = []"
| "scan a (c # t) =
     (case match_here a (c # t) of
        Some n \<Rightarrow> replacement (take n (c # t)) @ scan True (drop n (c # t))
      | None \<Rightarrow> c # scan (is_word_unit c) t)"
  by pat_completeness auto
termination
proof (relation "measure (\<lambda>(a, t). length t)")
  show "wf (measure (\<lambda>(a, t). length t))" by simp
next
  fix a :: bool and c :: unit16 and t :: jsstring and n
  assume "match_here a (c # t) = Some n"
  from match_here_Some(2) [OF this]
  show "((True, drop n (c # t)), (a, c # t)) \<in> measure (\<lambda>(a, t). length t)" by auto
next
  fix a :: bool and c :: unit16 and t :: jsstring
  show "((is_word_unit c, t), (a, c # t)) \<in> measure (\<lambda>(a, t). length t)" by simp
qed

declare scan.simps(2) [simp del]

lemma scan_skip: "match_here a (c # t) = None \<Longrightarrow> scan a (c # t) = c # scan (is_word_unit c) t"
  by (simp add: scan.simps(2))

lemma scan_match:
  "match_here a t = Some n \<Longrightarrow> scan a t = replacement (take n t) @ scan True (drop n t)"
proof (cases t)
  case Nil
  assume "match_here a t = Some n"
  from match_here_Some(2,3) [OF this] Nil show ?thesis by auto
next
  case (Cons c t')
  assume "match_here a t = Some n"
  with Cons show ?thesis by (simp add: scan.simps(2))
qed

lemma substring_append:
  "k \<le> j \<Longrightarrow> j \<le> p \<Longrightarrow> substring S k p = substring S k j @ substring S j p"
proof -
  assume kj: "k \<le> j" and jp: "j \<le> p"
  then have "p - k = (j - k) + (p - j)" by simp
  then have "take (p - k) (drop k S) = take (j - k) (drop k S) @ take (p - j) (drop (j - k) (drop k S))"
    by (simp only: take_add)
  with kj show ?thesis by (simp add: substring_def)
qed

lemma substring_drop: "k \<le> j \<Longrightarrow> drop k S = substring S k j @ drop j S"
proof -
  assume kj: "k \<le> j"
  have "drop k S = take (j - k) (drop k S) @ drop (j - k) (drop k S)"
    by (simp only: append_take_drop_id)
  with kj show ?thesis by (simp add: substring_def)
qed

lemma assemble_shift:
  assumes "k \<le> j" and "j \<le> length S" and "case rs of [] \<Rightarrow> True | r # _ \<Rightarrow> j \<le> index r"
  shows "assemble S rs k = substring S k j @ assemble S rs j"
proof (cases rs)
  case Nil
  with assms substring_drop show ?thesis by simp
next
  case (Cons r rs')
  with assms have "j \<le> min (index r) (length S)" by simp
  with assms(1) substring_append [of k j "min (index r) (length S)" S] Cons
  show ?thesis by (simp add: Let_def)
qed

lemma matcher_None_iff:
  "WORD_REGEX_matcher S i = None \<longleftrightarrow> match_here (prev_word S i) (drop i S) = None"
  by (simp add: matcher_match_here)

lemma matcher_Some:
  assumes "WORD_REGEX_matcher S i = Some r"
  obtains n where "match_here (prev_word S i) (drop i S) = Some n"
    and "matched r = take n (drop i S)" and "length (matched r) = n" and "index r = i"
    and "replacer r = replacement (matched r)"
proof -
  define t where "t = drop i S"
  from assms obtain n where mh: "match_here (prev_word S i) t = Some n"
    and r: "r = \<lparr>index = i, matched = take n t, base = take 9 t,
                   plural = (if n = 10 then Some (take 1 (drop 9 t)) else None)\<rparr>"
    unfolding matcher_match_here t_def by auto
  note f = match_here_Some [OF mh]
  from r f(3) have len: "length (matched r) = n" by simp
  have "truthy (plural r) = (n = 10)"
  proof (cases "n = 10")
    case True
    with f(3) have "take 1 (drop 9 t) \<noteq> []" by (cases "drop 9 t") auto
    with True r show ?thesis by (simp add: truthy_def)
  next
    case False
    with r show ?thesis by (simp add: truthy_def)
  qed
  with len have "replacer r = replacement (matched r)"
    by (simp add: replacer_def replacement_def)
  with that [OF mh [unfolded t_def]] r len show ?thesis by (simp add: t_def)
qed

lemma match_here_Nil: "match_here a [] = None"
  by (simp add: match_here_def starts_word_def)

lemma collect_end: "collect_results S (length S) = ([], 0)"
proof -
  have "WORD_REGEX_matcher S (length S) = None" by (simp add: matcher_None_iff match_here_Nil)
  then have "RegExpBuiltinExec S (length S) = (None, 0)"
    by (simp add: RegExpBuiltinExec.simps [of S "length S"] RegExpBuiltinExec.simps [of S "Suc (length S)"])
  then show ?thesis by (simp add: collect_results.simps [of S "length S"])
qed

lemma collect_skip:
  assumes "i < length S" and "WORD_REGEX_matcher S i = None"
  shows "collect_results S i = collect_results S (Suc i)"
proof -
  from assms have "RegExpBuiltinExec S i = RegExpBuiltinExec S (Suc i)"
    by (simp add: RegExpBuiltinExec.simps [of S i])
  then show ?thesis
    by (simp only: collect_results.simps [of S i] collect_results.simps [of S "Suc i"])
qed

lemma collect_match:
  assumes "WORD_REGEX_matcher S i = Some r" and "i \<le> length S" and "matched r \<noteq> []"
  shows "collect_results S i =
           (r # fst (collect_results S (i + length (matched r))),
            snd (collect_results S (i + length (matched r))))"
proof -
  from assms matcher_index [OF assms(1)]
  have "RegExpBuiltinExec S i = (Some r, i + length (matched r))"
    by (simp add: RegExpBuiltinExec.simps [of S i])
  with assms(3) show ?thesis
    by (simp add: collect_results.simps [of S i] split_beta)
qed

lemma collect_hd:
  assumes "collect_results S j = (r # rs, li)"
  shows "j \<le> index r"
proof (cases "RegExpBuiltinExec S j")
  case (Pair ro e)
  with assms obtain r' where "ro = Some r'"
    by (cases ro) (auto simp: collect_results.simps [of S j])
  with Pair assms have "r' = r"
    by (auto simp: collect_results.simps [of S j] split_beta Let_def)
  with Pair \<open>ro = Some r'\<close> exec_result [of S j r e] show ?thesis by simp
qed

lemma prev_word_after:
  assumes "match_here a t = Some n" and "t = drop i S"
  shows "prev_word S (i + n)"
proof -
  note f = match_here_Some [OF assms(1)]
  from f(4) ci_eq_word target_word have w: "list_all is_word_unit (take n t)" by blast
  from f(2) have "n - 1 < n" by auto
  from starts_word_drop_take [OF w this f(3)] have "starts_word (drop (n - 1) t)" .
  with prev_word_Suc [of S i "n - 1"] f(2) assms(2) show ?thesis by (auto simp: add.commute)
qed

lemma collect_scan:
  "i \<le> length S \<Longrightarrow>
     assemble S (fst (collect_results S i)) i = scan (prev_word S i) (drop i S) \<and>
     snd (collect_results S i) = 0"
proof (induction "length S - i" arbitrary: i rule: less_induct)
  case less
  show ?case
  proof (cases "i = length S")
    case True
    then show ?thesis by (simp add: collect_end)
  next
    case False
    with less.prems have lt: "i < length S" by simp
    then have d: "drop i S = S ! i # drop (Suc i) S" by (simp add: Cons_nth_drop_Suc)
    show ?thesis
    proof (cases "WORD_REGEX_matcher S i")
      case None
      from lt have "length S - Suc i < length S - i" "Suc i \<le> length S" by simp_all
      from less.hyps [OF this]
      have ih: "assemble S (fst (collect_results S (Suc i))) (Suc i)
                  = scan (prev_word S (Suc i)) (drop (Suc i) S)"
        and li: "snd (collect_results S (Suc i)) = 0" by simp_all
      define rs where "rs = fst (collect_results S (Suc i))"
      have "case rs of [] \<Rightarrow> True | r # _ \<Rightarrow> Suc i \<le> index r"
      proof (cases rs)
        case (Cons r rs')
        then have "collect_results S (Suc i) = (r # rs', snd (collect_results S (Suc i)))"
          by (simp add: rs_def prod_eq_iff)
        from collect_hd [OF this] Cons show ?thesis by simp
      qed simp
      with lt have "assemble S rs i = substring S i (Suc i) @ assemble S rs (Suc i)"
        by (intro assemble_shift) simp_all
      moreover from lt d have "substring S i (Suc i) = [S ! i]" by (simp add: substring_def)
      moreover from lt have "prev_word S (Suc i) = is_word_unit (S ! i)"
        by (simp add: prev_word_def IsWordChar_def)
      moreover from None have "scan (prev_word S i) (drop i S)
          = S ! i # scan (is_word_unit (S ! i)) (drop (Suc i) S)"
        unfolding d by (intro scan_skip) (simp add: matcher_None_iff d)
      ultimately show ?thesis
        using ih li collect_skip [OF lt None] by (simp add: rs_def)
    next
      case (Some r)
      from matcher_Some [OF Some] obtain n
        where mh: "match_here (prev_word S i) (drop i S) = Some n"
          and m: "matched r = take n (drop i S)" and len: "length (matched r) = n"
          and idx: "index r = i" and rep: "replacer r = replacement (matched r)"
        by blast
      note f = match_here_Some [OF mh]
      from f(2) len have ne: "matched r \<noteq> []" by auto
      from f(2,3) lt have "length S - (i + n) < length S - i" "i + n \<le> length S" by auto
      from less.hyps [OF this] prev_word_after [OF mh refl]
      have ih: "assemble S (fst (collect_results S (i + n))) (i + n)
                  = scan True (drop (i + n) S)"
        and li: "snd (collect_results S (i + n)) = 0" by simp_all
      from collect_match [OF Some less.prems ne] len
      have c: "collect_results S i
                = (r # fst (collect_results S (i + n)), snd (collect_results S (i + n)))"
        by simp
      have "assemble S (r # fst (collect_results S (i + n))) i
              = replacement (matched r) @ assemble S (fst (collect_results S (i + n))) (i + n)"
        using idx less.prems rep len by (simp add: substring_def Let_def)
      moreover from scan_match [OF mh]
      have "scan (prev_word S i) (drop i S) = replacement (matched r) @ scan True (drop (i + n) S)"
        by (simp add: m add.commute)
      ultimately show ?thesis using ih li c by simp
    qed
  qed
qed

lemma substitute_scan: "substitute li S = (scan False S, 0)"
proof -
  from collect_scan [of 0 S]
  have "assemble S (fst (collect_results S 0)) 0 = scan False S" "snd (collect_results S 0) = 0"
    by (simp_all add: prev_word_def)
  then show ?thesis by (simp add: substitute_collect)
qed

text \<open>The six strings the callback can return.\<close>

definition six_replacements :: "jsstring list" where
  "six_replacements =
     [js ''baklava'', js ''baklavas'', js ''BAKLAVA'', js ''BAKLAVAS'', js ''Baklava'', js ''Baklavas'']"

lemma applyCasing_cases:
  "applyCasing m tgt \<in> {toUpperCase tgt, toLowerCase tgt,
      toUpperCase (charAt0 tgt) @ toLowerCase (slice1 tgt), tgt}"
  by (simp add: applyCasing_def Let_def)

lemma casings_baklava:
  "toUpperCase (js ''baklava'') = js ''BAKLAVA''"
  "toLowerCase (js ''baklava'') = js ''baklava''"
  "toUpperCase (charAt0 (js ''baklava'')) @ toLowerCase (slice1 (js ''baklava'')) = js ''Baklava''"
  "toUpperCase (js ''baklavas'') = js ''BAKLAVAS''"
  "toLowerCase (js ''baklavas'') = js ''baklavas''"
  "toUpperCase (charAt0 (js ''baklavas'')) @ toLowerCase (slice1 (js ''baklavas'')) = js ''Baklavas''"
  by (simp_all add: toUpperCase_def toLowerCase_def toUpperUnit_def toLowerUnit_def charAt0_def
      slice1_def js_def)

lemma applyCasing_six:
  "applyCasing m (REPLACEMENT_BASE @ (if b then js ''s'' else js [])) \<in> set six_replacements"
proof -
  have e: "REPLACEMENT_BASE @ (if b then js ''s'' else js [])
             = (if b then js ''baklavas'' else js ''baklava'')"
    by (simp add: REPLACEMENT_BASE_def js_def)
  show ?thesis
    unfolding e using applyCasing_cases [of m "js ''baklavas''"] applyCasing_cases [of m "js ''baklava''"]
    by (cases b) (auto simp only: casings_baklava six_replacements_def list.set insert_iff if_True if_False empty_iff simp_thms)
qed

lemma replacement_six: "replacement m \<in> set six_replacements"
  unfolding replacement_def by (rule applyCasing_six)

lemma replacer_six: "replacer r \<in> set six_replacements"
  unfolding replacer_def Let_def by (rule applyCasing_six)

lemma match_here_True: "match_here True t = None"
proof (cases "match_here True t")
  case (Some n)
  from match_here_Some(1) [OF this] show ?thesis by simp
qed simp

lemma scan_True_Cons: "scan True (c # t) = c # scan (is_word_unit c) t"
  by (rule scan_skip) (rule match_here_True)

lemma scan_word_prefix: "list_all is_word_unit w \<Longrightarrow> scan True (w @ v) = w @ scan True v"
  by (induction w) (simp_all add: scan_True_Cons)

lemma token_Cons: "token (c # t) = (if is_word_unit c then c # token t else [])"
  by (simp add: token_def)

lemma token_scan: "token (scan True t) = token t"
  by (induction t) (simp_all add: scan_True_Cons token_Cons)

lemma token_word_append: "list_all is_word_unit w \<Longrightarrow> token (w @ v) = w @ token v"
  by (induction w) (simp_all add: token_Cons)

definition baklava_like :: "jsstring \<Rightarrow> bool" where
  "baklava_like R = (list_all is_word_unit R \<and> 3 \<le> length R \<and> Canonicalize (R ! 2) = 0x4B)"

lemma six_baklava_like: "list_all baklava_like six_replacements"
  by (simp add: six_replacements_def baklava_like_def js_def is_word_unit_def Canonicalize_def
      toUpperUnit_def)

lemma target_nth2: "Canonicalize (pattern_text n ! 2) = 0x4C"
  by (simp add: pattern_text_def js_def Canonicalize_def toUpperUnit_def)

lemma baklava_like_no_match:
  assumes "baklava_like R"
  shows "match_here a (R @ v) = None"
proof (cases "match_here a (R @ v)")
  case (Some n)
  from assms have w: "list_all is_word_unit R" and len: "3 \<le> length R"
    and k: "Canonicalize (R ! 2) = 0x4B" by (simp_all add: baklava_like_def)
  from Some have n: "n = 9 \<or> n = 10" and c: "ci_eq (token (R @ v)) (pattern_text n)"
    by (simp_all add: match_here_token)
  from c have e: "map Canonicalize (R @ token v) = map Canonicalize (pattern_text n)"
    by (simp add: ci_eq_def token_word_append [OF w])
  from n have l2: "2 < length (pattern_text n)" by (auto simp: target_length)
  from len have "Canonicalize ((R @ token v) ! 2) = map Canonicalize (R @ token v) ! 2"
    by (simp del: map_append)
  also have "\<dots> = map Canonicalize (pattern_text n) ! 2" by (simp only: e)
  also from l2 have "\<dots> = Canonicalize (pattern_text n ! 2)" by simp
  finally have "Canonicalize ((R @ token v) ! 2) = Canonicalize (pattern_text n ! 2)" .
  with len k target_nth2 [of n] show ?thesis by (simp add: nth_append)
qed simp

lemma scan_replacement:
  assumes "baklava_like R"
  shows "scan a (R @ v) = R @ scan True v"
proof -
  from assms obtain u R' where R: "R = u # R'" by (cases R) (auto simp: baklava_like_def)
  from assms R have w: "is_word_unit u" "list_all is_word_unit R'" by (simp_all add: baklava_like_def)
  from baklava_like_no_match [OF assms, of a v] R
  have "scan a (R @ v) = u # scan (is_word_unit u) (R' @ v)" by (simp add: scan_skip)
  with w R show ?thesis by (simp add: scan_word_prefix)
qed

lemma replacement_baklava_like: "baklava_like (replacement m)"
  using replacement_six [of m] six_baklava_like by (simp add: list_all_iff)

lemma scan_idem: "scan a (scan a t) = scan a t"
proof (induction a t rule: scan.induct)
  case (1 a)
  show ?case by simp
next
  case (2 a c t)
  show ?case
  proof (cases "match_here a (c # t)")
    case None
    have "token (c # scan (is_word_unit c) t) = token (c # t)"
      by (cases "is_word_unit c") (simp_all add: token_Cons token_scan)
    from match_here_local [OF this, of a] None
    have "match_here a (c # scan (is_word_unit c) t) = None" by simp
    with None "2.IH"(1) [OF None] show ?thesis by (simp add: scan_skip)
  next
    case (Some n)
    from scan_match [OF Some] "2.IH"(2) [OF Some] replacement_baklava_like
    show ?thesis by (simp add: scan_replacement)
  qed
qed

section \<open>Laws of the matcher\<close>

text \<open>A match consists of ASCII letters only, so the case mappings are applied within ASCII.\<close>

definition ascii_letter :: "unit16 \<Rightarrow> bool" where
  "ascii_letter u = (0x41 \<le> u \<and> u \<le> 0x5A \<or> 0x61 \<le> u \<and> u \<le> 0x7A)"

lemma canon_letter:
  assumes "Canonicalize u = Canonicalize p" and "ascii_letter p"
  shows "ascii_letter u"
proof -
  have up: "0x41 \<le> Canonicalize p \<and> Canonicalize p \<le> 0x5A"
    using assms(2) upper_range [of p]
    unfolding Canonicalize_def toUpperUnit_def ascii_letter_def by auto
  show ?thesis
  proof (cases "0x61 \<le> u \<and> u \<le> 0x7A")
    case True
    then show ?thesis by (simp add: ascii_letter_def)
  next
    case False
    then have "Canonicalize u = u" by (simp add: Canonicalize_def toUpperUnit_def)
    with up assms(1) show ?thesis by (simp add: ascii_letter_def)
  qed
qed

lemma ci_eq_letters: "ci_eq x y \<Longrightarrow> list_all ascii_letter y \<Longrightarrow> list_all ascii_letter x"
  unfolding ci_eq_def
proof (induction x arbitrary: y)
  case Nil
  then show ?case by simp
next
  case (Cons u x)
  then obtain p y' where y: "y = p # y'" by (cases y) auto
  with Cons.prems have "Canonicalize u = Canonicalize p" "map Canonicalize x = map Canonicalize y'"
    "ascii_letter p" "list_all ascii_letter y'"
    by auto
  with Cons.IH [of y'] canon_letter [of u p] show ?case by simp
qed

lemma matcher_ascii:
  assumes "WORD_REGEX_matcher S i = Some r"
  shows "list_all ascii_letter (matched r)"
proof -
  from matcher_Some [OF assms] obtain n
    where mh: "match_here (prev_word S i) (drop i S) = Some n"
      and m: "matched r = take n (drop i S)" by blast
  have "list_all ascii_letter (pattern_text n)"
    by (simp add: pattern_text_def js_def ascii_letter_def)
  with match_here_Some(4) [OF mh] m show ?thesis by (simp add: ci_eq_letters)
qed

lemma applyCasing_ci:
  assumes "tgt = js ''baklava'' \<or> tgt = js ''baklavas''"
  shows "ci_eq (applyCasing m tgt) tgt"
proof -
  have c: "ci_eq (js ''BAKLAVA'') (js ''baklava'')" "ci_eq (js ''Baklava'') (js ''baklava'')"
    "ci_eq (js ''baklava'') (js ''baklava'')"
    "ci_eq (js ''BAKLAVAS'') (js ''baklavas'')" "ci_eq (js ''Baklavas'') (js ''baklavas'')"
    "ci_eq (js ''baklavas'') (js ''baklavas'')"
    by (simp_all add: ci_eq_def js_def Canonicalize_def toUpperUnit_def)
  from assms show ?thesis
  proof
    assume t: "tgt = js ''baklava''"
    from applyCasing_cases [of m tgt] show ?thesis
      unfolding t by (auto simp only: casings_baklava c insert_iff empty_iff simp_thms)
  next
    assume t: "tgt = js ''baklavas''"
    from applyCasing_cases [of m tgt] show ?thesis
      unfolding t by (auto simp only: casings_baklava c insert_iff empty_iff simp_thms)
  qed
qed

lemma match_law:
  assumes "WORD_REGEX_matcher S i = Some r"
  shows "plural r = None \<longleftrightarrow> ci_eq (matched r) (js ''balaklava'')"
    and "plural r \<noteq> None \<longleftrightarrow> ci_eq (matched r) (js ''balaklavas'')"
    and "replacer r = applyCasing (matched r) (if plural r = None then js ''baklava'' else js ''baklavas'')"
    and "ci_eq (replacer r) (if plural r = None then js ''baklava'' else js ''baklavas'')"
proof -
  define t where "t = drop i S"
  from assms obtain n where mh: "match_here (prev_word S i) t = Some n"
    and r: "r = \<lparr>index = i, matched = take n t, base = take 9 t,
                   plural = (if n = 10 then Some (take 1 (drop 9 t)) else None)\<rparr>"
    unfolding matcher_match_here t_def by auto
  note f = match_here_Some [OF mh]
  from r f(3) have len: "length (matched r) = n" by simp
  from r have m: "matched r = take n t" by simp
  from r have p: "plural r = None \<longleftrightarrow> n \<noteq> 10" by simp
  from f(4) m have c: "ci_eq (matched r) (pattern_text n)" by simp
  have l9: "ci_eq (matched r) (js ''balaklava'') \<Longrightarrow> n = 9"
    using ci_eq_length [of "matched r" "js ''balaklava''"] len by simp
  have l10: "ci_eq (matched r) (js ''balaklavas'') \<Longrightarrow> n = 10"
    using ci_eq_length [of "matched r" "js ''balaklavas''"] len by simp
  from f(2) c p l9 show g1: "plural r = None \<longleftrightarrow> ci_eq (matched r) (js ''balaklava'')"
    by (auto simp: pattern_text_def)
  from f(2) c p l10 show "plural r \<noteq> None \<longleftrightarrow> ci_eq (matched r) (js ''balaklavas'')"
    by (auto simp: pattern_text_def)
  have "truthy (plural r) = (n = 10)"
  proof (cases "n = 10")
    case True
    with f(3) have "take 1 (drop 9 t) \<noteq> []" by (cases "drop 9 t") auto
    with True r show ?thesis by (simp add: truthy_def)
  next
    case False
    with r show ?thesis by (simp add: truthy_def)
  qed
  with p show g3: "replacer r = applyCasing (matched r) (if plural r = None then js ''baklava'' else js ''baklavas'')"
    by (simp add: replacer_def REPLACEMENT_BASE_def js_def)
  show "ci_eq (replacer r) (if plural r = None then js ''baklava'' else js ''baklavas'')"
    unfolding g3 by (rule applyCasing_ci) simp
qed

lemma casing_examples:
  "fst (substitute li (js ''BALAKLAVA'')) = js ''BAKLAVA''"
  "fst (substitute li (js ''balaklava'')) = js ''baklava''"
  "fst (substitute li (js ''Balaklava'')) = js ''Baklava''"
  "fst (substitute li (js ''bAlAklava'')) = js ''baklava''"
  by code_simp+

lemma plural_examples:
  "fst (substitute li (js ''balaklavas'')) = js ''baklavas''"
  "fst (substitute li (js ''BALAKLAVAS'')) = js ''BAKLAVAS''"
  "fst (substitute li (js ''Balaklavas'')) = js ''Baklavas''"
  by code_simp+

text \<open>
  C1. Casing and plural law. For every match \<open>r\<close> the matcher finds, the second group took
  part exactly when the matched text is "balaklavas" in some casing; the callback's result is
  \<open>applyCasing\<close> of the whole matched text (suffix included) on "baklavas" in that case and
  on "baklava" otherwise, and it is that word in some casing. The seven examples of the
  specification hold for every value \<open>lastIndex\<close> has before the call.
\<close>

theorem casing_and_plural_law:
  "(WORD_REGEX_matcher S i = Some r \<longrightarrow>
      (plural r \<noteq> None \<longleftrightarrow> ci_eq (matched r) (js ''balaklavas'')) \<and>
      (plural r = None \<longleftrightarrow> ci_eq (matched r) (js ''balaklava'')) \<and>
      replacer r = applyCasing (matched r)
                     (if plural r = None then js ''baklava'' else js ''baklavas'') \<and>
      ci_eq (replacer r) (if plural r = None then js ''baklava'' else js ''baklavas'')) \<and>
   fst (substitute li (js ''BALAKLAVA'')) = js ''BAKLAVA'' \<and>
   fst (substitute li (js ''balaklava'')) = js ''baklava'' \<and>
   fst (substitute li (js ''Balaklava'')) = js ''Baklava'' \<and>
   fst (substitute li (js ''bAlAklava'')) = js ''baklava'' \<and>
   fst (substitute li (js ''balaklavas'')) = js ''baklavas'' \<and>
   fst (substitute li (js ''BALAKLAVAS'')) = js ''BAKLAVAS'' \<and>
   fst (substitute li (js ''Balaklavas'')) = js ''Baklavas''"
proof (intro conjI impI)
  assume m: "WORD_REGEX_matcher S i = Some r"
  from match_law(2) [OF m] show "plural r \<noteq> None \<longleftrightarrow> ci_eq (matched r) (js ''balaklavas'')" .
  from match_law(1) [OF m] show "plural r = None \<longleftrightarrow> ci_eq (matched r) (js ''balaklava'')" .
  from match_law(3) [OF m] show "replacer r = applyCasing (matched r)
                     (if plural r = None then js ''baklava'' else js ''baklavas'')" .
  from match_law(4) [OF m]
  show "ci_eq (replacer r) (if plural r = None then js ''baklava'' else js ''baklavas'')" .
qed (rule casing_examples plural_examples)+

theorem casing_and_plural_law_witness:
  "WORD_REGEX_matcher (js ''I love Balaklavas'') 7
     = Some \<lparr>index = 7, matched = js ''Balaklavas'', base = js ''Balaklava'',
             plural = Some (js ''s'')\<rparr> \<and>
   replacer \<lparr>index = 7, matched = js ''Balaklavas'', base = js ''Balaklava'',
             plural = Some (js ''s'')\<rparr> = js ''Baklavas''"
proof -
  have m: "WORD_REGEX_matcher (js ''I love Balaklavas'') 7
     = Some \<lparr>index = 7, matched = js ''Balaklavas'', base = js ''Balaklava'',
             plural = Some (js ''s'')\<rparr>"
    by code_simp
  have a: "applyCasing (js ''Balaklavas'') (js ''baklavas'') = js ''Baklavas''"
    by code_simp
  from casing_and_plural_law [of "js ''I love Balaklavas''" 7
      "\<lparr>index = 7, matched = js ''Balaklavas'', base = js ''Balaklava'', plural = Some (js ''s'')\<rparr>" 0] m a
  show ?thesis by simp
qed

lemma six_word: "R \<in> set six_replacements \<Longrightarrow> baklava_like R"
  using six_baklava_like by (simp add: list_all_iff)

lemma baklava_like_matcher_None:
  assumes "baklava_like R"
  shows "WORD_REGEX_matcher R i = None"
proof (cases "i = 0")
  case True
  from baklava_like_no_match [OF assms, of "prev_word R 0" "[]"] True
  show ?thesis by (simp add: matcher_None_iff)
next
  case False
  show ?thesis
  proof (cases "i \<le> length R")
    case True
    from assms have "list_all is_word_unit R" by (simp add: baklava_like_def)
    with True False have "prev_word R i"
      by (simp add: prev_word_def IsWordChar_def list_all_length)
    then show ?thesis by (simp add: matcher_None_iff match_here_True)
  next
    case False
    then show ?thesis by (simp add: matcher_None_iff match_here_Nil)
  qed
qed

text \<open>
  C2. Idempotence. Substituting in the result of a substitution changes nothing, whatever
  \<open>lastIndex\<close> is before either call; and in none of the six strings the callback can
  return does the pattern match, at any index.
\<close>

theorem substitute_idempotent:
  "fst (substitute li' (fst (substitute li s))) = fst (substitute li s) \<and>
   (R \<in> set six_replacements \<longrightarrow> WORD_REGEX_matcher R i = None)"
  by (simp add: substitute_scan scan_idem baklava_like_matcher_None six_word)

theorem substitute_idempotent_witness:
  "js ''Baklavas'' \<in> set six_replacements \<and>
   WORD_REGEX_matcher (js ''Baklavas'') 0 = None \<and>
   fst (substitute 0 (js ''Balaklavas and balaklava'')) = js ''Baklavas and baklava'' \<and>
   fst (substitute 0 (js ''Baklavas and baklava'')) = js ''Baklavas and baklava''"
proof -
  have m: "js ''Baklavas'' \<in> set six_replacements" by (simp add: six_replacements_def)
  have e: "fst (substitute 0 (js ''Balaklavas and balaklava'')) = js ''Baklavas and baklava''"
    by code_simp
  from substitute_idempotent [of 0 0 "js ''Balaklavas and balaklava''" "js ''Baklavas''" 0] m e
  show ?thesis by simp
qed

text \<open>
  The results of a sequence of calls of the substitution, the value each call leaves in
  \<open>lastIndex\<close> being the one the next call finds.
\<close>

fun invocations :: "nat \<Rightarrow> jsstring list \<Rightarrow> jsstring list \<times> nat" where
  "invocations lastIndex [] = ([], lastIndex)"
| "invocations lastIndex (s # ss) =
     (let (r, lastIndex') = substitute lastIndex s;
          (rs, lastIndex'') = invocations lastIndex' ss
      in (r # rs, lastIndex''))"

lemma invocations_map: "fst (invocations li ss) = map (\<lambda>s. fst (substitute li0 s)) ss"
  by (induction ss arbitrary: li) (simp_all add: substitute_scan split_beta)

lemma RegExp_replace_WORD_REGEX:
  "RegExp_replace (WORD_REGEX li) S = (scan False S, WORD_REGEX 0)"
proof -
  from collect_scan [of 0 S]
  have "assemble S (fst (collect_results S 0)) 0 = scan False S" "snd (collect_results S 0) = 0"
    by (simp_all add: prev_word_def)
  then show ?thesis
    by (simp add: RegExp_replace_def WORD_REGEX_def replace_results_global [of _ 0] split_beta)
qed

text \<open>
  The state of the expression is live in the model. A call of \<open>exec\<close> on \<open>WORD_REGEX\<close> gives
  another result when \<open>lastIndex\<close> is another, and so does the same call of \<open>replace\<close> on an
  expression with the flag \<open>y\<close> in the place of \<open>g\<close>.
\<close>

lemma exec_reads_lastIndex:
  "fst (RegExpExec (WORD_REGEX 0) (js ''balaklava''))
     \<noteq> fst (RegExpExec (WORD_REGEX 1) (js ''balaklava''))"
  by code_simp

lemma sticky_replace_reads_lastIndex:
  "fst (RegExp_replace \<lparr>rx_global = False, rx_sticky = True, rx_lastIndex = 0\<rparr> (js ''balaklava''))
     \<noteq> fst (RegExp_replace \<lparr>rx_global = False, rx_sticky = True, rx_lastIndex = 1\<rparr> (js ''balaklava''))"
  by code_simp

text \<open>
  The specification's notion of a whole-word occurrence: the word \<open>w\<close> stands in \<open>S\<close> at
  index \<open>i\<close>, in any casing, bounded on both sides by a non-word character or an edge of the
  string.
\<close>

definition whole_word_at :: "jsstring \<Rightarrow> jsstring \<Rightarrow> nat \<Rightarrow> bool" where
  "whole_word_at w S i =
     (i + length w \<le> length S \<and> ci_eq (substring S i (i + length w)) w \<and>
      (i = 0 \<or> \<not> is_word_unit (S ! (i - 1))) \<and>
      (i + length w = length S \<or> \<not> is_word_unit (S ! (i + length w))))"

definition contains_target :: "jsstring \<Rightarrow> bool" where
  "contains_target S =
     list_ex (\<lambda>i. whole_word_at (js ''balaklava'') S i \<or> whole_word_at (js ''balaklavas'') S i)
       [0..<length S]"

lemma match_here_occurs:
  assumes "match_here (prev_word S i) (drop i S) = Some n"
  shows "whole_word_at (pattern_text n) S i" and "i < length S"
proof -
  note f = match_here_Some [OF assms]
  from f(2) have len: "length (pattern_text n) = n" by (rule target_length)
  from f(2,3) show lt: "i < length S" by auto
  from f(3) lt have le: "i + n \<le> length S" by simp
  from f(1) have b1: "i = 0 \<or> \<not> is_word_unit (S ! (i - 1))"
    using lt by (auto simp: prev_word_def IsWordChar_def)
  from f(5) have "\<not> IsWordChar S (i + n)" by (simp add: IsWordChar_drop add.commute)
  with le have b2: "i + n = length S \<or> \<not> is_word_unit (S ! (i + n))"
    by (auto simp: IsWordChar_def)
  from f(4) have "ci_eq (substring S i (i + n)) (pattern_text n)" by (simp add: substring_def)
  with le b1 b2 show "whole_word_at (pattern_text n) S i" by (simp add: whole_word_at_def len)
qed

lemma scan_no_match:
  assumes "\<And>j. j < length S \<Longrightarrow> match_here (prev_word S j) (drop j S) = None"
  shows "i \<le> length S \<Longrightarrow> scan (prev_word S i) (drop i S) = drop i S"
proof (induction "length S - i" arbitrary: i rule: less_induct)
  case less
  show ?case
  proof (cases "i = length S")
    case True
    then show ?thesis by simp
  next
    case False
    with less.prems have lt: "i < length S" by simp
    then have d: "drop i S = S ! i # drop (Suc i) S" by (simp add: Cons_nth_drop_Suc)
    from lt have "length S - Suc i < length S - i" "Suc i \<le> length S" by simp_all
    from less.hyps [OF this]
    have ih: "scan (prev_word S (Suc i)) (drop (Suc i) S) = drop (Suc i) S" .
    from lt have p: "prev_word S (Suc i) = is_word_unit (S ! i)"
      by (simp add: prev_word_def IsWordChar_def)
    from assms [OF lt] have "match_here (prev_word S i) (S ! i # drop (Suc i) S) = None"
      by (simp only: d)
    from scan_skip [OF this] ih p show ?thesis by (simp only: d)
  qed
qed

lemma no_match_identity:
  assumes "\<not> contains_target S"
  shows "fst (substitute li S) = S"
proof -
  have "match_here (prev_word S j) (drop j S) = None" if j: "j < length S" for j
  proof (cases "match_here (prev_word S j) (drop j S)")
    case (Some n)
    from match_here_occurs(1) [OF Some] match_here_Some(2) [OF Some]
    have "whole_word_at (js ''balaklava'') S j \<or> whole_word_at (js ''balaklavas'') S j"
      by (auto simp: pattern_text_def)
    with j have "contains_target S"
      unfolding contains_target_def list_ex_iff by (intro bexI [of _ j]) simp_all
    with assms show ?thesis by simp
  qed simp
  from scan_no_match [of S 0, OF this] show ?thesis
    by (simp add: substitute_scan prev_word_def)
qed

lemma no_match_examples:
  "fst (substitute li (js [])) = js []"
  "fst (substitute li (js ''balaklavaland'')) = js ''balaklavaland''"
  "fst (substitute li (js ''xbalaklava'')) = js ''xbalaklava''"
  by code_simp+

text \<open>
  C3. No-match identity. A string with no whole-word occurrence of "balaklava" or
  "balaklavas", in any casing, is returned as it is; so are the empty string,
  "balaklavaland" and "xbalaklava".
\<close>

theorem no_match_unchanged:
  "(\<not> contains_target s \<longrightarrow> fst (substitute li s) = s) \<and>
   fst (substitute li (js [])) = js [] \<and>
   fst (substitute li (js ''balaklavaland'')) = js ''balaklavaland'' \<and>
   fst (substitute li (js ''xbalaklava'')) = js ''xbalaklava''"
  using no_match_identity [of s li] no_match_examples [of li] by simp

theorem no_match_unchanged_witness:
  "\<not> contains_target (js ''my balaklavaland, xbalaklava!'') \<and>
   fst (substitute 0 (js ''my balaklavaland, xbalaklava!'')) = js ''my balaklavaland, xbalaklava!''"
proof -
  have n: "\<not> contains_target (js ''my balaklavaland, xbalaklava!'')"
    by code_simp
  from no_match_unchanged [of "js ''my balaklavaland, xbalaklava!''" 0] n
  show ?thesis by simp
qed

lemma token_not_word: "\<not> starts_word t \<Longrightarrow> token t = []"
  by (cases t) (simp_all add: starts_word_def token_def)

lemma match_here_not_word: "\<not> starts_word t \<Longrightarrow> match_here a t = None"
proof (cases "match_here a t")
  case (Some n)
  assume "\<not> starts_word t"
  with Some have "ci_eq [] (pattern_text n)" "n = 9 \<or> n = 10"
    by (simp_all add: match_here_token token_not_word)
  with ci_eq_length [of "[]" "pattern_text n"] target_length [of n] show ?thesis by auto
qed simp

lemma scan_context: "\<not> starts_word t \<Longrightarrow> scan a t = scan False t"
proof (cases t)
  case (Cons c t')
  assume "\<not> starts_word t"
  with Cons match_here_not_word [of t] show ?thesis by (simp add: scan_skip)
qed simp

lemma token_append_left:
  assumes "\<exists>x\<in>set p. \<not> is_word_unit x"
  shows "token (p @ q) = token p"
proof -
  from assms obtain x where "x \<in> set p" "\<not> is_word_unit x" by blast
  then show ?thesis unfolding token_def by (rule takeWhile_append1)
qed

lemma scan_append:
  "p \<noteq> [] \<Longrightarrow> \<not> is_word_unit (last p) \<Longrightarrow> scan a (p @ q) = scan a p @ scan False q"
proof (induction a p rule: scan.induct)
  case (1 a)
  then show ?case by simp
next
  case (2 a c t)
  let ?p = "c # t"
  from "2.prems" last_in_set [of ?p] have ex: "\<exists>x\<in>set ?p. \<not> is_word_unit x"
    by blast
  from match_here_local [OF token_append_left [OF ex, of q], of a]
  have loc: "match_here a (?p @ q) = match_here a ?p" .
  show ?case
  proof (cases "match_here a ?p")
    case None
    with loc have s: "scan a (?p @ q) = c # scan (is_word_unit c) (t @ q)"
      by (simp add: scan_skip)
    show ?thesis
    proof (cases "t = []")
      case True
      with "2.prems" have "\<not> is_word_unit c" by simp
      with s True None show ?thesis by (simp add: scan_skip)
    next
      case False
      with "2.prems" have "\<not> is_word_unit (last t)" by simp
      from "2.IH"(1) [OF None False this] s None show ?thesis by (simp add: scan_skip)
    qed
  next
    case (Some n)
    note f = match_here_Some [OF Some]
    from f(4) ci_eq_word target_word have w: "list_all is_word_unit (take n ?p)" by blast
    have lt: "n < length ?p"
    proof (rule ccontr)
      assume "\<not> n < length ?p"
      with f(3) have "take n ?p = ?p" by simp
      with w last_in_set [of ?p] have "is_word_unit (last ?p)"
        by (simp only: list_all_iff) blast
      with "2.prems" show False by simp
    qed
    then have ne: "drop n ?p \<noteq> []" and la: "last (drop n ?p) = last ?p" by simp_all
    from la "2.prems" have nw: "\<not> is_word_unit (last (drop n ?p))" by simp
    from lt have z: "n - length ?p = 0" by simp
    have tk: "take n (?p @ q) = take n ?p" and dr: "drop n (?p @ q) = drop n ?p @ q"
      by (simp_all only: take_append drop_append z take_0 drop_0 append_Nil2)
    from Some loc have "match_here a (?p @ q) = Some n" by simp
    from scan_match [OF this] have "scan a (?p @ q)
        = replacement (take n ?p) @ scan True (drop n ?p @ q)" by (simp only: tk dr)
    with "2.IH"(2) [OF Some ne nw] scan_match [OF Some] show ?thesis by simp
  qed
qed

lemma scan_whole_word:
  assumes b1: "pre = [] \<or> \<not> is_word_unit (last pre)"
    and m: "ci_eq m (js ''balaklava'') \<or> ci_eq m (js ''balaklavas'')"
    and b2: "post = [] \<or> \<not> is_word_unit (hd post)"
  shows "scan False (pre @ m @ post) = scan False pre @ replacement m @ scan False post"
proof -
  from b2 have sw: "\<not> starts_word post" by (cases post) (simp_all add: starts_word_def)
  from m have "\<exists>n. (n = 9 \<or> n = 10) \<and> ci_eq m (pattern_text n)"
  proof
    assume "ci_eq m (js ''balaklava'')"
    then have "ci_eq m (pattern_text 9)" by (simp add: pattern_text_def)
    then show ?thesis by blast
  next
    assume "ci_eq m (js ''balaklavas'')"
    then have "ci_eq m (pattern_text 10)" by (simp add: pattern_text_def)
    then show ?thesis by blast
  qed
  then obtain n where n: "n = 9 \<or> n = 10" and c: "ci_eq m (pattern_text n)" by blast
  from ci_eq_length [OF c] n have len: "length m = n" by (simp add: target_length)
  from match_here_intro [OF _ n c sw, of False]
  have "match_here False (m @ post) = Some n" by simp
  from scan_match [OF this] len
  have "scan False (m @ post) = replacement m @ scan True post" by simp
  with scan_context [OF sw, of True]
  have mid: "scan False (m @ post) = replacement m @ scan False post" by simp
  show ?thesis
  proof (cases "pre = []")
    case True
    with mid show ?thesis by simp
  next
    case False
    with b1 have "\<not> is_word_unit (last pre)" by simp
    from scan_append [OF False this, of False "m @ post"] mid show ?thesis by simp
  qed
qed

lemma replacement_whole_word:
  assumes "ci_eq m (js ''balaklava'') \<or> ci_eq m (js ''balaklavas'')"
  shows "replacement m
           = applyCasing m (if ci_eq m (js ''balaklavas'') then js ''baklavas'' else js ''baklava'')"
proof -
  from assms have "length m = 10 \<longleftrightarrow> ci_eq m (js ''balaklavas'')"
    using ci_eq_length [of m "js ''balaklava''"] ci_eq_length [of m "js ''balaklavas''"] by auto
  then show ?thesis by (simp add: replacement_def REPLACEMENT_BASE_def js_def)
qed

lemma independent_example:
  "fst (substitute li (js ''balaklava and BALAKLAVA'')) = js ''baklava and BAKLAVA''"
  by code_simp

text \<open>
  C4. Completeness and independence. Wherever "balaklava" or "balaklavas", in any casing,
  stands as a whole word \<open>m\<close> in the input (the text before it is empty or ends with a
  non-word character, the text after it is empty or starts with one), the result is the
  substitution of the text before it, then \<open>m\<close> re-cased by its own casing alone, then the
  substitution of the text after it: every such occurrence is replaced, each on its own.
\<close>

theorem every_match_replaced:
  "((pre = [] \<or> \<not> is_word_unit (last pre)) \<and>
    (ci_eq m (js ''balaklava'') \<or> ci_eq m (js ''balaklavas'')) \<and>
    (post = [] \<or> \<not> is_word_unit (hd post)) \<longrightarrow>
      fst (substitute li (pre @ m @ post))
        = fst (substitute li pre)
          @ applyCasing m (if ci_eq m (js ''balaklavas'') then js ''baklavas'' else js ''baklava'')
          @ fst (substitute li post)) \<and>
   fst (substitute li (js ''balaklava and BALAKLAVA'')) = js ''baklava and BAKLAVA''"
proof (intro conjI impI)
  assume h: "(pre = [] \<or> \<not> is_word_unit (last pre)) \<and>
    (ci_eq m (js ''balaklava'') \<or> ci_eq m (js ''balaklavas'')) \<and>
    (post = [] \<or> \<not> is_word_unit (hd post))"
  then have "scan False (pre @ m @ post) = scan False pre @ replacement m @ scan False post"
    by (intro scan_whole_word) simp_all
  with h replacement_whole_word [of m]
  show "fst (substitute li (pre @ m @ post))
        = fst (substitute li pre)
          @ applyCasing m (if ci_eq m (js ''balaklavas'') then js ''baklavas'' else js ''baklava'')
          @ fst (substitute li post)"
    by (simp add: substitute_scan)
qed (rule independent_example)

theorem every_match_replaced_witness:
  "\<not> is_word_unit (last (js ''Balaklavas and '')) \<and>
   ci_eq (js ''BALAKLAVA'') (js ''balaklava'') \<and>
   \<not> is_word_unit (hd (js ''!'')) \<and>
   fst (substitute 0 (js ''Balaklavas and BALAKLAVA!'')) = js ''Baklavas and BAKLAVA!''"
proof -
  have b1: "\<not> is_word_unit (last (js ''Balaklavas and ''))"
    and b2: "\<not> is_word_unit (hd (js ''!''))"
    by (simp_all add: js_def is_word_unit_def)
  have c: "ci_eq (js ''BALAKLAVA'') (js ''balaklava'')"
    "\<not> ci_eq (js ''BALAKLAVA'') (js ''balaklavas'')"
    by (simp_all add: ci_eq_def js_def Canonicalize_def toUpperUnit_def)
  have e: "fst (substitute 0 (js ''Balaklavas and '')) = js ''Baklavas and ''"
    "applyCasing (js ''BALAKLAVA'') (js ''baklava'') = js ''BAKLAVA''"
    "fst (substitute 0 (js ''!'')) = js ''!''"
    by code_simp+
  have j: "js ''Balaklavas and '' @ js ''BALAKLAVA'' @ js ''!'' = js ''Balaklavas and BALAKLAVA!''"
    "js ''Baklavas and '' @ js ''BAKLAVA'' @ js ''!'' = js ''Baklavas and BAKLAVA!''"
    by (simp_all add: js_def)
  from every_match_replaced [of "js ''Balaklavas and ''" "js ''BALAKLAVA''" "js ''!''" 0] b1 b2 c
  have "fst (substitute 0 (js ''Balaklavas and '' @ js ''BALAKLAVA'' @ js ''!''))
          = fst (substitute 0 (js ''Balaklavas and '')) @ applyCasing (js ''BALAKLAVA'') (js ''baklava'')
            @ fst (substitute 0 (js ''!''))"
    by simp
  then have "fst (substitute 0 (js ''Balaklavas and BALAKLAVA!'')) = js ''Baklavas and BAKLAVA!''"
    by (simp only: e j)
  with b1 b2 c show ?thesis by simp
qed

text \<open>
  The matched spans and the text between them. \<open>ordered S k rs\<close>: the results \<open>rs\<close> are
  matches of the pattern in \<open>S\<close>, from left to right, none starting before index \<open>k\<close> or
  before the end of the one before it. \<open>gaps S rs k\<close> is the text of \<open>S\<close> from index \<open>k\<close>
  that lies outside the spans of \<open>rs\<close>, and \<open>interleave gs ms\<close> puts pieces \<open>ms\<close> between
  the gaps \<open>gs\<close>.
\<close>

fun ordered :: "jsstring \<Rightarrow> nat \<Rightarrow> regexp_result list \<Rightarrow> bool" where
  "ordered S k [] = True"
| "ordered S k (r # rs) =
     (k \<le> index r \<and> WORD_REGEX_matcher S (index r) = Some r \<and>
      ordered S (index r + length (matched r)) rs)"

fun gaps :: "jsstring \<Rightarrow> regexp_result list \<Rightarrow> nat \<Rightarrow> jsstring list" where
  "gaps S [] k = [drop k S]"
| "gaps S (r # rs) k = substring S k (index r) # gaps S rs (index r + length (matched r))"

fun interleave :: "jsstring list \<Rightarrow> jsstring list \<Rightarrow> jsstring" where
  "interleave (g # gs) (m # ms) = g @ m @ interleave gs ms"
| "interleave gs [] = concat gs"
| "interleave [] ms = concat ms"

lemma collect_ordered: "ordered S i (fst (collect_results S i))"
proof (induction S i rule: collect_results.induct)
  case (1 S li)
  show ?case
  proof (cases "RegExpBuiltinExec S li")
    case (Pair ro e)
    show ?thesis
    proof (cases ro)
      case None
      with Pair show ?thesis by (simp add: collect_results.simps [of S li])
    next
      case (Some r)
      with Pair have ex: "RegExpBuiltinExec S li = (Some r, e)" by simp
      note er = exec_result [OF ex]
      from er obtain n where len: "length (matched r) = n"
        and mh: "match_here (prev_word S (index r)) (drop (index r) S) = Some n"
        by (auto elim: matcher_Some)
      from match_here_Some(2) [OF mh] len have ne: "matched r \<noteq> []" by auto
      from "1.IH" [OF Pair [symmetric] Some refl] ne
      have "ordered S e (fst (collect_results S e))" by simp
      with ex er ne show ?thesis by (simp add: collect_results.simps [of S li] split_beta)
    qed
  qed
qed

lemma ordered_spans:
  "ordered S k rs \<Longrightarrow> k \<le> length S \<Longrightarrow>
     drop k S = interleave (gaps S rs k) (map matched rs) \<and>
     assemble S rs k = interleave (gaps S rs k) (map replacer rs) \<and>
     length (gaps S rs k) = Suc (length rs)"
proof (induction rs arbitrary: k)
  case Nil
  then show ?case by simp
next
  case (Cons r rs)
  let ?p = "index r"
  from Cons.prems have kp: "k \<le> ?p" and m: "WORD_REGEX_matcher S ?p = Some r"
    and o: "ordered S (?p + length (matched r)) rs" by simp_all
  from matcher_Some [OF m] obtain n
    where mh: "match_here (prev_word S ?p) (drop ?p S) = Some n"
      and mt: "matched r = take n (drop ?p S)" and len: "length (matched r) = n"
    by blast
  from match_here_occurs(2) [OF mh] have pl: "?p < length S" .
  from match_here_Some(3) [OF mh] pl have le: "?p + n \<le> length S" by simp
  from Cons.IH [OF o] le len
  have ih: "drop (?p + n) S = interleave (gaps S rs (?p + n)) (map matched rs)"
    "assemble S rs (?p + n) = interleave (gaps S rs (?p + n)) (map replacer rs)"
    "length (gaps S rs (?p + n)) = Suc (length rs)" by simp_all
  have "drop ?p S = take n (drop ?p S) @ drop n (drop ?p S)" by (simp only: append_take_drop_id)
  then have "drop ?p S = matched r @ drop (?p + n) S" by (simp add: mt add.commute)
  with substring_drop [OF kp, of S]
  have d: "drop k S = substring S k ?p @ matched r @ drop (?p + n) S" by simp
  from kp pl have a: "assemble S (r # rs) k
      = substring S k ?p @ replacer r @ assemble S rs (?p + n)"
    by (simp add: Let_def len)
  from d a ih show ?case by (simp add: len)
qed

lemma replaced_spans:
  defines "rs \<equiv> \<lambda>S. fst (collect_results S 0)"
  shows "S = interleave (gaps S (rs S) 0) (map matched (rs S))"
    and "fst (substitute li S) = interleave (gaps S (rs S) 0) (map replacer (rs S))"
    and "length (gaps S (rs S) 0) = Suc (length (rs S))"
  using ordered_spans [OF collect_ordered [of S 0]]
  by (simp_all add: rs_def substitute_collect)

lemma ordered_matches:
  "ordered S k rs \<Longrightarrow> r \<in> set rs \<Longrightarrow> WORD_REGEX_matcher S (index r) = Some r"
  by (induction rs arbitrary: k) auto

lemma mixed_suffix_examples:
  "fst (substitute li (js ''BALAKLAVAs'')) = js ''baklavas''"
  "fst (substitute li (js ''balaklavaS'')) = js ''baklavas''"
  by code_simp+

lemma six_distinct: "distinct six_replacements"
  by (simp add: six_replacements_def js_def)

text \<open>
  C10. Replacement range. Let \<open>rs\<close> be the matches the replacement finds in \<open>S\<close> and \<open>gs\<close>
  the text of \<open>S\<close> outside their spans. Then \<open>S\<close> is the gaps with the matched texts between
  them, the result is the same gaps with the callback's results between them, every element of
  \<open>rs\<close> is a match of the pattern in \<open>S\<close>, and every result of the callback is one of the six
  (distinct) strings "baklava", "baklavas", "BAKLAVA", "BAKLAVAS", "Baklava", "Baklavas". A
  suffix whose case differs from the rest of the match gives the lower-case "baklavas".
\<close>

theorem replacement_range:
  "(let rs = fst (collect_results S 0); gs = gaps S rs 0 in
      length gs = Suc (length rs) \<and>
      S = interleave gs (map matched rs) \<and>
      fst (substitute li S) = interleave gs (map replacer rs) \<and>
      list_all (\<lambda>r. WORD_REGEX_matcher S (index r) = Some r \<and>
                     replacer r \<in> set six_replacements) rs) \<and>
   six_replacements = [js ''baklava'', js ''baklavas'', js ''BAKLAVA'', js ''BAKLAVAS'',
                       js ''Baklava'', js ''Baklavas''] \<and>
   distinct six_replacements \<and>
   fst (substitute li (js ''BALAKLAVAs'')) = js ''baklavas'' \<and>
   fst (substitute li (js ''balaklavaS'')) = js ''baklavas''"
proof -
  have "list_all (\<lambda>r. WORD_REGEX_matcher S (index r) = Some r \<and>
                     replacer r \<in> set six_replacements) (fst (collect_results S 0))"
    unfolding list_all_iff
    using ordered_matches [OF collect_ordered [of S 0]] replacer_six by blast
  with replaced_spans(1) [of S] replaced_spans(2) [of li S] replaced_spans(3) [of S]
    six_distinct mixed_suffix_examples [of li]
  show ?thesis by (simp add: Let_def six_replacements_def)
qed

theorem replacement_range_witness:
  "fst (collect_results (js ''x BALAKLAVAs y'') 0)
     = [\<lparr>index = 2, matched = js ''BALAKLAVAs'', base = js ''BALAKLAVA'', plural = Some (js ''s'')\<rparr>] \<and>
   gaps (js ''x BALAKLAVAs y'')
     [\<lparr>index = 2, matched = js ''BALAKLAVAs'', base = js ''BALAKLAVA'', plural = Some (js ''s'')\<rparr>] 0
     = [js ''x '', js '' y''] \<and>
   fst (substitute 0 (js ''x BALAKLAVAs y'')) = js ''x '' @ js ''baklavas'' @ js '' y''"
proof -
  let ?r = "\<lparr>index = 2, matched = js ''BALAKLAVAs'', base = js ''BALAKLAVA'', plural = Some (js ''s'')\<rparr>"
  have c: "fst (collect_results (js ''x BALAKLAVAs y'') 0) = [?r]"
    by code_simp
  have g: "gaps (js ''x BALAKLAVAs y'') [?r] 0 = [js ''x '', js '' y'']"
    by code_simp
  have r: "replacer ?r = js ''baklavas''"
    by code_simp
  from replacement_range [of "js ''x BALAKLAVAs y''" 0]
  have "fst (substitute 0 (js ''x BALAKLAVAs y''))
          = interleave (gaps (js ''x BALAKLAVAs y'') (fst (collect_results (js ''x BALAKLAVAs y'') 0)) 0)
              (map replacer (fst (collect_results (js ''x BALAKLAVAs y'') 0)))"
    by (simp add: Let_def)
  then have "fst (substitute 0 (js ''x BALAKLAVAs y'')) = js ''x '' @ js ''baklavas'' @ js '' y''"
    by (simp only: c g r list.map interleave.simps concat.simps append_Nil2)
  with c g show ?thesis by (simp only: simp_thms)
qed

section \<open>The document tree\<close>

text \<open>
  The nodes of the page form a forest: the document and the trees detached from it. A node
  is addressed by its path, the child indices from a root of the forest down to it. The engine
  never changes the shape of the forest, the tag names or the editable flags; the only thing it
  writes is the \<open>nodeValue\<close> of a text node. So the state keeps the forest and the payloads
  apart: \<open>tree\<close> is the forest, \<open>nodeValue\<close> the store of payloads by address.
\<close>

datatype node =
    Element string bool "node list"  \<comment> \<open>\<open>tagName\<close>, \<open>isContentEditable\<close>, \<open>childNodes\<close>\<close>
  | Text                             \<comment> \<open>a text unit; its payload is in the store\<close>
  | Other "node list"                \<comment> \<open>any other node (a document, a fragment, a comment)\<close>

type_synonym path = "nat list"

fun childNodes :: "node \<Rightarrow> node list" where
  "childNodes (Element tag ce cs) = cs"
| "childNodes Text = []"
| "childNodes (Other cs) = cs"

fun node_at :: "node list \<Rightarrow> path \<Rightarrow> node option" where
  "node_at ns [] = None"
| "node_at ns [i] = (if i < length ns then Some (ns ! i) else None)"
| "node_at ns (i # j # p) =
     (if i < length ns then node_at (childNodes (ns ! i)) (j # p) else None)"

record page =
  tree :: "node list"
  nodeValue :: "path \<Rightarrow> jsstring option"   \<comment> \<open>\<open>string | null\<close>\<close>
  lastIndex :: nat                          \<comment> \<open>of the shared \<open>WORD_REGEX\<close>\<close>
  writes :: "(path \<times> jsstring) list"         \<comment> \<open>the assignments to \<open>nodeValue\<close> made so far\<close>

definition EXCLUDED_TAGS :: "string set" where
  "EXCLUDED_TAGS = {''SCRIPT'', ''STYLE'', ''NOSCRIPT'', ''TEXTAREA'', ''INPUT'', ''CODE'', ''PRE''}"

definition parentElement :: "node list \<Rightarrow> path \<Rightarrow> path option" where
  \<comment> \<open>the parent when it is an element, else \<open>null\<close>\<close>
  "parentElement t n =
     (case node_at t (butlast n) of
        Some (Element tag ce cs) \<Rightarrow> Some (butlast n)
      | _ \<Rightarrow> None)"

lemma parentElement_shorter: "parentElement t n = Some q \<Longrightarrow> length q < length n"
  by (cases n rule: rev_cases) (auto simp: parentElement_def split: option.splits node.splits)

function isExcludedElement :: "node list \<Rightarrow> path option \<Rightarrow> bool" where
  "isExcludedElement t None = False"
| "isExcludedElement t (Some cur) =
     (case node_at t cur of
        Some (Element tagName isContentEditable cs) \<Rightarrow>
          if tagName \<in> EXCLUDED_TAGS then True
          else if isContentEditable then True
          else isExcludedElement t (parentElement t cur)
      | _ \<Rightarrow> False)"
  by pat_completeness auto
termination
proof (relation "measure (\<lambda>(t, el). case el of None \<Rightarrow> 0 | Some cur \<Rightarrow> Suc (length cur))")
  show "wf (measure (\<lambda>(t, el). case el of None \<Rightarrow> 0 | Some cur \<Rightarrow> Suc (length cur)))" by simp
next
  fix t :: "node list" and cur :: path
  show "((t, parentElement t cur), (t, Some cur))
          \<in> measure (\<lambda>(t, el). case el of None \<Rightarrow> 0 | Some cur \<Rightarrow> Suc (length cur))"
    using parentElement_shorter [of t cur] by (cases "parentElement t cur") auto
qed

definition replaceInTextNode :: "page \<Rightarrow> path \<Rightarrow> page" where
  "replaceInTextNode st node =
     (let parent = parentElement (tree st) node in
      if isExcludedElement (tree st) parent then st
      else case nodeValue st node of
        None \<Rightarrow> st
      | Some original \<Rightarrow>
          if original = [] then st
          else
            let (replaced, li) = substitute (lastIndex st) original;
                st1 = st\<lparr>lastIndex := li\<rparr>
            in if replaced \<noteq> original
               then st1\<lparr>nodeValue := (nodeValue st1)(node := Some replaced),
                        writes := writes st1 @ [(node, replaced)]\<rparr>
               else st1)"

section \<open>The tree walker\<close>

text \<open>
  \<open>document.createTreeWalker(root, NodeFilter.SHOW_TEXT, {acceptNode})\<close> and the loop over
  \<open>walker.nextNode()\<close>, after the traversal of the DOM standard. The walker goes through the
  descendants of \<open>root\<close> in tree order. To each node it applies its filter: a node that
  \<open>whatToShow\<close> does not select gets \<open>FILTER_SKIP\<close> without the callback being called; for
  a selected node the callback decides. \<open>nextNode\<close> does not descend below a node whose filter
  result is \<open>FILTER_REJECT\<close>, it descends below every other node, and it returns the nodes
  whose result is \<open>FILTER_ACCEPT\<close>.
\<close>

datatype filter_result = FILTER_ACCEPT | FILTER_REJECT | FILTER_SKIP

definition acceptNode :: "node list \<Rightarrow> path \<Rightarrow> filter_result" where
  \<comment> \<open>the callback of the source, called with a text node \<open>n\<close>\<close>
  "acceptNode t n =
     (let parent = parentElement t n in
      if isExcludedElement t parent then FILTER_REJECT else FILTER_ACCEPT)"

definition node_filter :: "node list \<Rightarrow> path \<Rightarrow> node \<Rightarrow> filter_result" where
  \<comment> \<open>the filter of the walker with \<open>whatToShow = SHOW_TEXT\<close>: only text nodes reach the callback\<close>
  "node_filter t p n = (case n of Text \<Rightarrow> acceptNode t p | _ \<Rightarrow> FILTER_SKIP)"

fun walk_node :: "node list \<Rightarrow> path \<Rightarrow> node \<Rightarrow> (path \<times> filter_result) list"
  and walk_nodes :: "node list \<Rightarrow> path \<Rightarrow> nat \<Rightarrow> node list \<Rightarrow> (path \<times> filter_result) list"
where
  "walk_node t p (Element tag ce cs) =
     (let r = node_filter t p (Element tag ce cs) in
      (p, r) # (if r = FILTER_REJECT then [] else walk_nodes t p 0 cs))"
| "walk_node t p Text =
     (let r = node_filter t p Text in [(p, r)])"
| "walk_node t p (Other cs) =
     (let r = node_filter t p (Other cs) in
      (p, r) # (if r = FILTER_REJECT then [] else walk_nodes t p 0 cs))"
| "walk_nodes t p i [] = []"
| "walk_nodes t p i (n # ns) = walk_node t (p @ [i]) n @ walk_nodes t p (Suc i) ns"

definition visited :: "node list \<Rightarrow> path \<Rightarrow> node \<Rightarrow> (path \<times> filter_result) list" where
  \<comment> \<open>the nodes the walker comes to below \<open>root\<close>, each with its filter result, in the order
      of the traversal\<close>
  "visited t root n = walk_nodes t root 0 (childNodes n)"

definition yielded :: "node list \<Rightarrow> path \<Rightarrow> node \<Rightarrow> path list" where
  \<comment> \<open>the nodes the successive calls of \<open>nextNode\<close> return\<close>
  "yielded t root n = map fst (filter (\<lambda>(q, r). r = FILTER_ACCEPT) (visited t root n))"

text \<open>
  \<open>processSubtree\<close>. The walker is lazy: each \<open>nextNode\<close> runs on the tree as it is then.
  \<open>replaceInTextNode\<close> leaves the forest as it is (lemma \<open>replaceInTextNode_tree\<close>), so the
  nodes the loop gets are those of the traversal of the forest at the start.
\<close>

definition processSubtree :: "page \<Rightarrow> path \<Rightarrow> page" where
  "processSubtree st root =
     (case node_at (tree st) root of
        None \<Rightarrow> st
      | Some Text \<Rightarrow> replaceInTextNode st root
      | Some n \<Rightarrow> foldl replaceInTextNode st (yielded (tree st) root n))"

section \<open>Start and mutation observer\<close>

datatype mutation_type = attributes | characterData | childList

record mutation_record =
  mtype :: mutation_type
  target :: "path option"
  addedNodes :: "path list"

definition handle_mutation :: "page \<Rightarrow> mutation_record \<Rightarrow> page" where
  \<comment> \<open>the body of the loop \<open>for (const m of mutations)\<close>\<close>
  "handle_mutation st m =
     (let st1 =
        (case target m of
           Some tg \<Rightarrow>
             if mtype m = characterData \<and> node_at (tree st) tg = Some Text
             then replaceInTextNode st tg else st
         | None \<Rightarrow> st)
      in foldl processSubtree st1 (addedNodes m))"

definition observer_callback :: "page \<Rightarrow> mutation_record list \<Rightarrow> page" where
  "observer_callback st mutations = foldl handle_mutation st mutations"

definition init :: "page \<Rightarrow> path option \<Rightarrow> page" where
  \<comment> \<open>the scan of \<open>document.body\<close> when there is one; registering the observer changes no
      text\<close>
  "init st body = (case body of Some b \<Rightarrow> processSubtree st b | None \<Rightarrow> st)"

section \<open>Laws of the engine\<close>

definition same_at :: "path \<Rightarrow> page \<Rightarrow> page \<Rightarrow> bool" where
  \<comment> \<open>from \<open>st\<close> to \<open>st'\<close> the payload of the node \<open>q\<close> has not changed and nothing was written
      to it\<close>
  "same_at q st st' =
     (nodeValue st' q = nodeValue st q \<and>
      filter (\<lambda>w. fst w = q) (writes st') = filter (\<lambda>w. fst w = q) (writes st))"

lemma same_at_refl: "same_at q st st"
  by (simp add: same_at_def)

lemma same_at_trans: "same_at q st st' \<Longrightarrow> same_at q st' st'' \<Longrightarrow> same_at q st st''"
  by (simp add: same_at_def)

lemma replaceInTextNode_tree: "tree (replaceInTextNode st p) = tree st"
  by (simp add: replaceInTextNode_def Let_def split_beta split: option.splits)

lemma replaceInTextNode_other: "q \<noteq> p \<Longrightarrow> same_at q st (replaceInTextNode st p)"
  by (simp add: replaceInTextNode_def same_at_def Let_def split_beta split: option.splits)

lemma replaceInTextNode_exempt:
  "isExcludedElement (tree st) (parentElement (tree st) p) \<Longrightarrow> replaceInTextNode st p = st"
  by (simp add: replaceInTextNode_def)

lemma replaceInTextNode_same_at:
  assumes "isExcludedElement (tree st) (parentElement (tree st) q)"
  shows "same_at q st (replaceInTextNode st p)"
proof (cases "q = p")
  case True
  with assms show ?thesis by (simp add: replaceInTextNode_exempt same_at_refl)
next
  case False
  then show ?thesis by (rule replaceInTextNode_other)
qed

lemma foldl_invariant:
  assumes step: "\<And>s x. tree (f s x) = tree s \<and> (P (tree s) \<longrightarrow> same_at q s (f s x))"
  shows "tree (foldl f st xs) = tree st \<and> (P (tree st) \<longrightarrow> same_at q st (foldl f st xs))"
proof (induction xs arbitrary: st)
  case Nil
  show ?case by (simp add: same_at_refl)
next
  case (Cons x xs)
  from step [of st x] Cons.IH [of "f st x"] show ?case
    by (auto intro: same_at_trans)
qed

lemma processSubtree_inv:
  "tree (processSubtree st p) = tree st \<and>
   (isExcludedElement (tree st) (parentElement (tree st) q) \<longrightarrow> same_at q st (processSubtree st p))"
proof -
  have step: "\<And>s x. tree (replaceInTextNode s x) = tree s \<and>
      (isExcludedElement (tree s) (parentElement (tree s) q) \<longrightarrow> same_at q s (replaceInTextNode s x))"
    by (simp add: replaceInTextNode_tree replaceInTextNode_same_at)
  note fold = foldl_invariant [of replaceInTextNode "\<lambda>t. isExcludedElement t (parentElement t q)" q, OF step]
  show ?thesis
  proof (cases "node_at (tree st) p")
    case None
    then show ?thesis by (simp add: processSubtree_def same_at_refl)
  next
    case (Some n)
    show ?thesis
    proof (cases n)
      case Text
      with Some step [of st p] show ?thesis by (simp add: processSubtree_def)
    next
      case (Element tag ce cs)
      with Some fold [of st "yielded (tree st) p n"] show ?thesis by (simp add: processSubtree_def)
    next
      case (Other cs)
      with Some fold [of st "yielded (tree st) p n"] show ?thesis by (simp add: processSubtree_def)
    qed
  qed
qed

lemma handle_mutation_inv:
  "tree (handle_mutation st m) = tree st \<and>
   (isExcludedElement (tree st) (parentElement (tree st) q) \<longrightarrow> same_at q st (handle_mutation st m))"
proof -
  define st1 where "st1 =
        (case target m of
           Some tg \<Rightarrow>
             if mtype m = characterData \<and> node_at (tree st) tg = Some Text
             then replaceInTextNode st tg else st
         | None \<Rightarrow> st)"
  have one: "tree st1 = tree st \<and>
      (isExcludedElement (tree st) (parentElement (tree st) q) \<longrightarrow> same_at q st st1)"
    unfolding st1_def
    by (auto simp: replaceInTextNode_tree replaceInTextNode_same_at same_at_refl split: option.splits)
  note fold = foldl_invariant [of processSubtree "\<lambda>t. isExcludedElement t (parentElement t q)" q,
      OF processSubtree_inv]
  have h: "handle_mutation st m = foldl processSubtree st1 (addedNodes m)"
    by (simp add: handle_mutation_def st1_def)
  from one fold [of st1 "addedNodes m"] show ?thesis
    unfolding h by (auto intro: same_at_trans)
qed

lemma observer_callback_inv:
  "tree (observer_callback st ms) = tree st \<and>
   (isExcludedElement (tree st) (parentElement (tree st) q) \<longrightarrow> same_at q st (observer_callback st ms))"
  unfolding observer_callback_def
  by (rule foldl_invariant [of handle_mutation "\<lambda>t. isExcludedElement t (parentElement t q)" q,
      OF handle_mutation_inv])

lemma init_inv:
  "tree (init st body) = tree st \<and>
   (isExcludedElement (tree st) (parentElement (tree st) q) \<longrightarrow> same_at q st (init st body))"
  using processSubtree_inv [of st _ q]
  by (cases body) (simp_all add: init_def same_at_refl)

text \<open>
  The exemption predicate in the words of the specification: the chain of elements from a
  given element upwards (the element, its parent element, and so on while there is one)
  holds an element of an exempt category or an editable one.
\<close>

definition exempt_element :: "node list \<Rightarrow> path \<Rightarrow> bool" where
  "exempt_element t a =
     (case node_at t a of
        Some (Element tag ce cs) \<Rightarrow> tag \<in> EXCLUDED_TAGS \<or> ce
      | _ \<Rightarrow> False)"

function element_chain :: "node list \<Rightarrow> path option \<Rightarrow> path list" where
  "element_chain t None = []"
| "element_chain t (Some cur) =
     (case node_at t cur of
        Some (Element tag ce cs) \<Rightarrow> cur # element_chain t (parentElement t cur)
      | _ \<Rightarrow> [])"
  by pat_completeness auto
termination
proof (relation "measure (\<lambda>(t, el). case el of None \<Rightarrow> 0 | Some cur \<Rightarrow> Suc (length cur))")
  show "wf (measure (\<lambda>(t, el). case el of None \<Rightarrow> 0 | Some cur \<Rightarrow> Suc (length cur)))" by simp
next
  fix t :: "node list" and cur :: path
  show "((t, parentElement t cur), (t, Some cur))
          \<in> measure (\<lambda>(t, el). case el of None \<Rightarrow> 0 | Some cur \<Rightarrow> Suc (length cur))"
    using parentElement_shorter [of t cur] by (cases "parentElement t cur") auto
qed

lemma isExcludedElement_chain:
  "isExcludedElement t el = list_ex (exempt_element t) (element_chain t el)"
proof (induction t el rule: isExcludedElement.induct)
  case (1 t)
  show ?case by simp
next
  case (2 t cur)
  show ?case
  proof (cases "node_at t cur")
    case None
    then show ?thesis by simp
  next
    case (Some n)
    show ?thesis
    proof (cases n)
      case (Element tag ce cs)
      with Some "2.IH" [of n tag ce cs] show ?thesis
        by (auto simp: exempt_element_def)
    qed (use Some in simp_all)
  qed
qed

text \<open>
  A page for the examples: a document with a paragraph, a \<open>PRE\<close> block and an editable
  \<open>DIV\<close> holding a \<open>SPAN\<close>, each with one text node.
\<close>

definition demo_body :: node where
  "demo_body =
     Element ''BODY'' False
       [Element ''P'' False [Text],
        Element ''PRE'' False [Text],
        Element ''DIV'' True [Element ''SPAN'' False [Text]]]"

definition demo_tree :: "node list" where
  "demo_tree = [Other [Element ''HTML'' False [demo_body]]]"

definition demo_page :: page where
  "demo_page =
     \<lparr>tree = demo_tree,
      nodeValue = (\<lambda>_. None)
        ([0, 0, 0, 0, 0] := Some (js ''I love Balaklavas''),
         [0, 0, 0, 1, 0] := Some (js ''balaklava''),
         [0, 0, 0, 2, 0, 0] := Some (js ''BALAKLAVA'')),
      lastIndex = 0,
      writes = []\<rparr>"

text \<open>
  C5. Exemption invariant. When the chain of elements from the parent of a text unit \<open>q\<close>
  upwards holds an element of an exempt category or an editable element, no operation of the
  engine changes the payload of \<open>q\<close> or writes to it: not the single-unit processor called on
  any node, not the scan of any subtree, not the observer's callback on any batch of mutation
  records, not the start with any body. The payload of \<open>q\<close> is arbitrary: it may match.
\<close>

theorem exempt_never_mutated:
  "list_ex (exempt_element (tree st)) (element_chain (tree st) (parentElement (tree st) q)) \<longrightarrow>
     same_at q st (replaceInTextNode st p) \<and>
     same_at q st (processSubtree st root) \<and>
     same_at q st (observer_callback st mutations) \<and>
     same_at q st (init st body)"
  using replaceInTextNode_same_at [of st q p] processSubtree_inv [of st root q]
    observer_callback_inv [of st mutations q] init_inv [of st body q]
  by (simp add: isExcludedElement_chain)

theorem exempt_never_mutated_witness:
  "list_ex (exempt_element (tree demo_page))
     (element_chain (tree demo_page) (parentElement (tree demo_page) [0, 0, 0, 1, 0])) \<and>
   nodeValue demo_page [0, 0, 0, 1, 0] = Some (js ''balaklava'') \<and>
   nodeValue (init demo_page (Some [0, 0, 0])) [0, 0, 0, 1, 0] = Some (js ''balaklava'') \<and>
   nodeValue (init demo_page (Some [0, 0, 0])) [0, 0, 0, 0, 0] = Some (js ''I love Baklavas'')"
proof -
  have h: "list_ex (exempt_element (tree demo_page))
     (element_chain (tree demo_page) (parentElement (tree demo_page) [0, 0, 0, 1, 0]))"
    by code_simp
  have v: "nodeValue demo_page [0, 0, 0, 1, 0] = Some (js ''balaklava'')"
    by (simp add: demo_page_def)
  have e: "nodeValue (init demo_page (Some [0, 0, 0])) [0, 0, 0, 0, 0] = Some (js ''I love Baklavas'')"
    by code_simp
  from exempt_never_mutated [of demo_page "[0, 0, 0, 1, 0]" "[]" "[]" "[]" "Some [0, 0, 0]"] h
  have "same_at [0, 0, 0, 1, 0] demo_page (init demo_page (Some [0, 0, 0]))" by simp
  with h v e show ?thesis by (simp add: same_at_def)
qed

lemma replaceInTextNode_absent:
  "nodeValue st p = None \<or> nodeValue st p = Some [] \<Longrightarrow> replaceInTextNode st p = st"
  by (auto simp: replaceInTextNode_def Let_def)

lemma replaceInTextNode_processed:
  assumes "\<not> isExcludedElement (tree st) (parentElement (tree st) p)"
    and "nodeValue st p = Some s" and "s \<noteq> []"
  shows "nodeValue (replaceInTextNode st p) p = Some (fst (substitute (lastIndex st) s))"
  using assms by (simp add: replaceInTextNode_def Let_def split_beta)

text \<open>
  C7. Benign absences. The processor returns the state as it is when the payload of the unit
  is absent or empty; the exemption check on no element is false; and a unit with no parent
  element (a detached one) whose payload is not empty is processed: its payload becomes the
  substitution of what it was.
\<close>

theorem benign_absence:
  "(nodeValue st p = None \<or> nodeValue st p = Some [] \<longrightarrow> replaceInTextNode st p = st) \<and>
   isExcludedElement t None = False \<and>
   (parentElement (tree st) p = None \<and> nodeValue st p = Some s \<and> s \<noteq> [] \<longrightarrow>
      nodeValue (replaceInTextNode st p) p = Some (fst (substitute (lastIndex st) s)))"
  using replaceInTextNode_absent [of st p] replaceInTextNode_processed [of st p s]
  by auto

definition orphan_page :: page where
  \<comment> \<open>a detached text node with the payload "balaklava", and a text node with an empty payload
      in a paragraph\<close>
  "orphan_page =
     \<lparr>tree = [Text, Element ''P'' False [Text]],
      nodeValue = (\<lambda>_. None)([0] := Some (js ''balaklava''), [1, 0] := Some (js [])),
      lastIndex = 0,
      writes = []\<rparr>"

theorem benign_absence_witness:
  "nodeValue orphan_page [1, 0] = Some [] \<and>
   replaceInTextNode orphan_page [1, 0] = orphan_page \<and>
   parentElement (tree orphan_page) [0] = None \<and>
   nodeValue orphan_page [0] = Some (js ''balaklava'') \<and> js ''balaklava'' \<noteq> [] \<and>
   nodeValue (replaceInTextNode orphan_page [0]) [0] = Some (js ''baklava'')"
proof -
  have a: "nodeValue orphan_page [1, 0] = Some []"
    and b: "parentElement (tree orphan_page) [0] = None"
    and c: "nodeValue orphan_page [0] = Some (js ''balaklava'')" "js ''balaklava'' \<noteq> []"
    and l: "lastIndex orphan_page = 0"
    by (simp_all add: orphan_page_def parentElement_def js_def)
  have e: "fst (substitute 0 (js ''balaklava'')) = js ''baklava''"
    by code_simp
  from benign_absence [of orphan_page "[1, 0]" "[]" "js ''balaklava''"] a
  have 1: "replaceInTextNode orphan_page [1, 0] = orphan_page" by simp
  from benign_absence [of orphan_page "[0]" "[]" "js ''balaklava''"] b c
  have "nodeValue (replaceInTextNode orphan_page [0]) [0]
          = Some (fst (substitute (lastIndex orphan_page) (js ''balaklava'')))" by simp
  with a b c 1 show ?thesis by (simp add: l e)
qed

text \<open>
  C8. Frame condition of the single-unit processor. It never changes the forest or the
  payload of another node, and it leaves \<open>lastIndex\<close> at the 0 it has from the start. It
  writes the payload of its unit exactly when the unit is not exempt, the payload is present
  and not empty, and the substitution differs from it; then the one write is the substitution.
  In every other case (the substitution equal to the payload among them) it writes nothing and
  the payload is what it was.
\<close>

theorem processor_frame:
  "tree (replaceInTextNode st p) = tree st \<and>
   (q \<noteq> p \<longrightarrow> nodeValue (replaceInTextNode st p) q = nodeValue st q) \<and>
   (lastIndex st = 0 \<longrightarrow> lastIndex (replaceInTextNode st p) = 0) \<and>
   (case nodeValue st p of
      None \<Rightarrow> writes (replaceInTextNode st p) = writes st \<and>
                nodeValue (replaceInTextNode st p) p = None
    | Some original \<Rightarrow>
        if \<not> isExcludedElement (tree st) (parentElement (tree st) p) \<and> original \<noteq> [] \<and>
           fst (substitute (lastIndex st) original) \<noteq> original
        then writes (replaceInTextNode st p)
               = writes st @ [(p, fst (substitute (lastIndex st) original))] \<and>
             nodeValue (replaceInTextNode st p) p = Some (fst (substitute (lastIndex st) original))
        else writes (replaceInTextNode st p) = writes st \<and>
             nodeValue (replaceInTextNode st p) p = Some original)"
  by (auto simp: replaceInTextNode_def Let_def split_beta substitute_scan split: option.splits)

definition plain_page :: page where
  \<comment> \<open>a paragraph whose text has no match\<close>
  "plain_page =
     \<lparr>tree = [Element ''P'' False [Text]],
      nodeValue = (\<lambda>_. None)([0, 0] := Some (js ''baklava time'')),
      lastIndex = 0,
      writes = []\<rparr>"

theorem processor_frame_witness:
  "nodeValue plain_page [0, 0] = Some (js ''baklava time'') \<and>
   writes (replaceInTextNode plain_page [0, 0]) = [] \<and>
   nodeValue (replaceInTextNode plain_page [0, 0]) [0, 0] = Some (js ''baklava time'') \<and>
   nodeValue demo_page [0, 0, 0, 0, 0] = Some (js ''I love Balaklavas'') \<and>
   writes (replaceInTextNode demo_page [0, 0, 0, 0, 0])
     = [([0, 0, 0, 0, 0], js ''I love Baklavas'')] \<and>
   nodeValue (replaceInTextNode demo_page [0, 0, 0, 0, 0]) [0, 0, 0, 1, 0]
     = Some (js ''balaklava'')"
proof -
  have p: "nodeValue plain_page [0, 0] = Some (js ''baklava time'')"
    "writes plain_page = []" "lastIndex plain_page = 0"
    by (simp_all add: plain_page_def)
  have pe: "fst (substitute 0 (js ''baklava time'')) = js ''baklava time''"
    by code_simp
  have d: "nodeValue demo_page [0, 0, 0, 0, 0] = Some (js ''I love Balaklavas'')"
    "writes demo_page = []" "lastIndex demo_page = 0"
    "nodeValue demo_page [0, 0, 0, 1, 0] = Some (js ''balaklava'')"
    by (simp_all add: demo_page_def)
  have de: "fst (substitute 0 (js ''I love Balaklavas'')) = js ''I love Baklavas''"
    "\<not> isExcludedElement (tree demo_page) (parentElement (tree demo_page) [0, 0, 0, 0, 0])"
    "js ''I love Balaklavas'' \<noteq> []" "js ''I love Baklavas'' \<noteq> js ''I love Balaklavas''"
    by code_simp+
  from processor_frame [of plain_page "[0, 0]" "[]"] p pe
  have 1: "writes (replaceInTextNode plain_page [0, 0]) = []"
    "nodeValue (replaceInTextNode plain_page [0, 0]) [0, 0] = Some (js ''baklava time'')"
    by simp_all
  from processor_frame [of demo_page "[0, 0, 0, 0, 0]" "[0, 0, 0, 1, 0]"] d de
  have 2: "writes (replaceInTextNode demo_page [0, 0, 0, 0, 0])
     = [([0, 0, 0, 0, 0], js ''I love Baklavas'')]"
    "nodeValue (replaceInTextNode demo_page [0, 0, 0, 0, 0]) [0, 0, 0, 1, 0]
     = Some (js ''balaklava'')"
    by simp_all
  from p d 1 2 show ?thesis by simp
qed

text \<open>
  The descendants of a node in tree order (a node before its children, the children from
  first to last), each with its path.
\<close>

fun subtree_nodes :: "path \<Rightarrow> node \<Rightarrow> (path \<times> node) list"
  and forest_nodes :: "path \<Rightarrow> nat \<Rightarrow> node list \<Rightarrow> (path \<times> node) list"
where
  "subtree_nodes p (Element tag ce cs) = (p, Element tag ce cs) # forest_nodes p 0 cs"
| "subtree_nodes p Text = [(p, Text)]"
| "subtree_nodes p (Other cs) = (p, Other cs) # forest_nodes p 0 cs"
| "forest_nodes p i [] = []"
| "forest_nodes p i (n # ns) = subtree_nodes (p @ [i]) n @ forest_nodes p (Suc i) ns"

definition descendants :: "path \<Rightarrow> node \<Rightarrow> (path \<times> node) list" where
  "descendants root n = forest_nodes root 0 (childNodes n)"

definition document_order :: "path \<Rightarrow> path \<Rightarrow> bool" where
  \<comment> \<open>\<open>p\<close> comes before \<open>q\<close> in tree order: \<open>p\<close> is an ancestor of \<open>q\<close>, or where the two
      paths part \<open>p\<close> takes the earlier child\<close>
  "document_order p q = ((p, q) \<in> lexord {(i, j). i < j})"

lemma node_filter_not_reject:
  "node_filter t p (Element tag ce cs) \<noteq> FILTER_REJECT" "node_filter t p (Other cs) \<noteq> FILTER_REJECT"
  by (simp_all add: node_filter_def)

lemma walk_all:
  "walk_node t p n = map (\<lambda>(q, m). (q, node_filter t q m)) (subtree_nodes p n)"
  "walk_nodes t p i ns = map (\<lambda>(q, m). (q, node_filter t q m)) (forest_nodes p i ns)"
  by (induction t p n and t p i ns rule: walk_node_walk_nodes.induct)
    (simp_all add: node_filter_not_reject Let_def)

lemma visited_all:
  "visited t root n = map (\<lambda>(q, m). (q, node_filter t q m)) (descendants root n)"
  by (simp add: visited_def descendants_def walk_all)

lemma node_at_Cons_0: "node_at (n # ns) (0 # r) = (if r = [] then Some n else node_at (childNodes n) r)"
  by (cases r) simp_all

lemma node_at_Cons_Suc: "node_at (n # ns) (Suc j # r) = node_at ns (j # r)"
  by (cases r) simp_all

lemma node_at_Nil: "node_at [] r = None"
  by (cases "([] :: node list, r)" rule: node_at.cases) simp_all

lemma nodes_below:
  "(q, m) \<in> set (subtree_nodes p n) \<longleftrightarrow>
     (q = p \<and> m = n) \<or> (\<exists>r. r \<noteq> [] \<and> q = p @ r \<and> node_at (childNodes n) r = Some m)"
  "(q, m) \<in> set (forest_nodes p i ns) \<longleftrightarrow>
     (\<exists>j r. q = p @ (i + j) # r \<and> node_at ns (j # r) = Some m)"
proof (induction p n and p i ns arbitrary: q m and q m rule: subtree_nodes_forest_nodes.induct)
  case (1 p tag ce cs)
  have "(\<exists>j r. q = p @ (0 + j) # r \<and> node_at cs (j # r) = Some m)
        \<longleftrightarrow> (\<exists>r. r \<noteq> [] \<and> q = p @ r \<and> node_at cs r = Some m)"
    by (metis add_0 list.exhaust list.distinct(1))
  with 1 [of q m] show ?case by auto
next
  case (2 p)
  show ?case by (auto simp: node_at_Nil)
next
  case (3 p cs)
  have "(\<exists>j r. q = p @ (0 + j) # r \<and> node_at cs (j # r) = Some m)
        \<longleftrightarrow> (\<exists>r. r \<noteq> [] \<and> q = p @ r \<and> node_at cs r = Some m)"
    by (metis add_0 list.exhaust list.distinct(1))
  with 3 [of q m] show ?case by auto
next
  case (4 p i)
  show ?case by (simp add: node_at_Nil)
next
  case (5 p i n ns)
  have "(\<exists>j r. q = p @ (i + j) # r \<and> node_at (n # ns) (j # r) = Some m) \<longleftrightarrow>
        (\<exists>r. q = p @ i # r \<and> node_at (n # ns) (0 # r) = Some m) \<or>
        (\<exists>j r. q = p @ (i + Suc j) # r \<and> node_at (n # ns) (Suc j # r) = Some m)"
    (is "?L \<longleftrightarrow> ?A \<or> ?B")
  proof
    assume ?L
    then obtain j r where h: "q = p @ (i + j) # r" "node_at (n # ns) (j # r) = Some m" by blast
    show "?A \<or> ?B"
    proof (cases j)
      case 0
      with h show ?thesis by auto
    next
      case (Suc j')
      with h show ?thesis by blast
    qed
  next
    assume "?A \<or> ?B"
    then show ?L
    proof
      assume ?A
      then obtain r where "q = p @ (i + 0) # r" "node_at (n # ns) (0 # r) = Some m" by auto
      then show ?L by blast
    next
      assume ?B
      then show ?L by blast
    qed
  qed
  moreover have "?A \<longleftrightarrow> (q = p @ [i] \<and> m = n) \<or>
      (\<exists>r. r \<noteq> [] \<and> q = (p @ [i]) @ r \<and> node_at (childNodes n) r = Some m)"
    by (auto simp: node_at_Cons_0)
  moreover have "?B \<longleftrightarrow> (\<exists>j r. q = p @ (Suc i + j) # r \<and> node_at ns (j # r) = Some m)"
    by (simp add: node_at_Cons_Suc)
  ultimately show ?case using "5.IH"(1) [of q m] "5.IH"(2) [of q m] by simp
qed

lemma node_at_append:
  "node_at t p = Some n \<Longrightarrow> r \<noteq> [] \<Longrightarrow> node_at t (p @ r) = node_at (childNodes n) r"
proof (induction t p rule: node_at.induct)
  case (1 ns)
  then show ?case by simp
next
  case (2 ns i)
  then obtain j r' where "r = j # r'" by (cases r) auto
  with 2 show ?case by (auto split: if_splits)
next
  case (3 ns i j p)
  then show ?case by (auto split: if_splits)
qed

lemma descendants_iff:
  assumes "node_at t root = Some n"
  shows "(q, m) \<in> set (descendants root n) \<longleftrightarrow>
           (\<exists>r. r \<noteq> [] \<and> q = root @ r \<and> node_at t q = Some m)"
proof -
  have "(q, m) \<in> set (descendants root n) \<longleftrightarrow>
          (\<exists>j r. q = root @ (0 + j) # r \<and> node_at (childNodes n) (j # r) = Some m)"
    unfolding descendants_def by (rule nodes_below(2))
  also have "\<dots> \<longleftrightarrow> (\<exists>r. r \<noteq> [] \<and> q = root @ r \<and> node_at (childNodes n) r = Some m)"
    by (metis add_0 list.exhaust list.distinct(1))
  also have "\<dots> \<longleftrightarrow> (\<exists>r. r \<noteq> [] \<and> q = root @ r \<and> node_at t q = Some m)"
    using node_at_append [OF assms] by metis
  finally show ?thesis .
qed

lemma paths_below:
  "(q, m) \<in> set (subtree_nodes p n) \<Longrightarrow> \<exists>r. q = p @ r"
  "(q, m) \<in> set (forest_nodes p i ns) \<Longrightarrow> \<exists>j r. q = p @ j # r \<and> i \<le> j"
proof -
  assume "(q, m) \<in> set (subtree_nodes p n)"
  then show "\<exists>r. q = p @ r" unfolding nodes_below(1) by auto
next
  assume "(q, m) \<in> set (forest_nodes p i ns)"
  then obtain j r where "q = p @ (i + j) # r" unfolding nodes_below(2) by blast
  then show "\<exists>j r. q = p @ j # r \<and> i \<le> j" by (intro exI [of _ "i + j"] exI [of _ r]) simp
qed

lemma nodes_sorted:
  "sorted_wrt document_order (map fst (subtree_nodes p n))"
  "sorted_wrt document_order (map fst (forest_nodes p i ns))"
proof (induction p n and p i ns rule: subtree_nodes_forest_nodes.induct)
  case (1 p tag ce cs)
  have "document_order p q" if "(q, m) \<in> set (forest_nodes p 0 cs)" for q m
    using paths_below(2) [OF that] unfolding document_order_def
    by (auto intro: lexord_append_rightI)
  with 1 show ?case by auto
next
  case (2 p)
  show ?case by simp
next
  case (3 p cs)
  have "document_order p q" if "(q, m) \<in> set (forest_nodes p 0 cs)" for q m
    using paths_below(2) [OF that] unfolding document_order_def
    by (auto intro: lexord_append_rightI)
  with 3 show ?case by auto
next
  case (4 p i)
  show ?case by simp
next
  case (5 p i n ns)
  have "document_order q q'"
    if a: "(q, m) \<in> set (subtree_nodes (p @ [i]) n)" and b: "(q', m') \<in> set (forest_nodes p (Suc i) ns)"
    for q m q' m'
  proof -
    from paths_below(1) [OF a] obtain r where q: "q = p @ i # r" by auto
    from paths_below(2) [OF b] obtain j r' where q': "q' = p @ j # r'" and j: "Suc i \<le> j" by auto
    from j have "(i, j) \<in> {(i, j). i < j}" by simp
    from lexord_append_left_rightI [OF this, of p r r'] q q' show ?thesis
      by (simp add: document_order_def)
  qed
  with 5 show ?case by (auto simp: sorted_wrt_append)
qed

lemma yielded_text:
  "yielded t root n
     = map fst (filter (\<lambda>(q, m). m = Text \<and> \<not> isExcludedElement t (parentElement t q))
                  (descendants root n))"
proof -
  have "(case (case qm of (q, m) \<Rightarrow> (q, node_filter t q m)) of (q, r) \<Rightarrow> r = FILTER_ACCEPT)
          = (case qm of (q, m) \<Rightarrow> m = Text \<and> \<not> isExcludedElement t (parentElement t q))" for qm
    by (cases qm; cases "snd qm") (auto simp: node_filter_def acceptNode_def)
  then show ?thesis
    by (simp add: yielded_def visited_all filter_map comp_def)
qed

text \<open>
  The claim of a pruning traversal, in its own words: the walker comes to no node that lies
  inside a subtree rooted at an exempt element below \<open>root\<close>. \<open>enters_exempt_subtree t root q\<close>:
  an ancestor of \<open>q\<close> strictly below \<open>root\<close> is an exempt element.
\<close>

definition enters_exempt_subtree :: "node list \<Rightarrow> path \<Rightarrow> path \<Rightarrow> bool" where
  "enters_exempt_subtree t root q =
     list_ex (\<lambda>k. exempt_element t (take k q)) [Suc (length root) ..< length q]"

definition prunes_exempt :: "node list \<Rightarrow> path \<Rightarrow> node \<Rightarrow> bool" where
  "prunes_exempt t root n =
     list_all (\<lambda>(q, r). \<not> enters_exempt_subtree t root q) (visited t root n)"

text \<open>
  C6 as stated fails. On the scan of the body of the example page the walker goes into the
  \<open>PRE\<close> element, an exempt element below the root, and consults the filter on the text
  node inside it: with \<open>SHOW_TEXT\<close> the callback never sees an element, so its
  \<open>FILTER_REJECT\<close> cuts off nothing.
\<close>

theorem scanner_pruning_counterexample:
  "node_at demo_tree [0, 0, 0] = Some demo_body \<and> demo_body \<noteq> Text \<and>
   exempt_element demo_tree [0, 0, 0, 1] \<and>
   ([0, 0, 0, 1, 0], FILTER_REJECT) \<in> set (visited demo_tree [0, 0, 0] demo_body) \<and>
   \<not> prunes_exempt demo_tree [0, 0, 0] demo_body"
  by code_simp

text \<open>
  C6, amended. For a root \<open>n\<close> that is not a text node, the walker comes to every descendant
  of the root, in document order, exempt subtrees included: the nodes it visits are exactly the
  nodes strictly below the root, each with the result of the filter (\<open>FILTER_SKIP\<close> for a
  node that is not a text node, the callback's answer for a text node). The nodes it yields
  are the text descendants whose parent chain is not excluded, in document order, and
  \<open>processSubtree\<close> applies the single-unit processor to them one after the other in that
  order.
\<close>

theorem scanner_traversal:
  "node_at (tree st) root = Some n \<and> n \<noteq> Text \<longrightarrow>
     visited (tree st) root n
       = map (\<lambda>(q, m). (q, node_filter (tree st) q m)) (descendants root n) \<and>
     (\<forall>q m. (q, m) \<in> set (descendants root n) \<longleftrightarrow>
              (\<exists>r. r \<noteq> [] \<and> q = root @ r \<and> node_at (tree st) q = Some m)) \<and>
     sorted_wrt document_order (map fst (descendants root n)) \<and>
     yielded (tree st) root n
       = map fst (filter (\<lambda>(q, m). m = Text \<and>
                            \<not> isExcludedElement (tree st) (parentElement (tree st) q))
                    (descendants root n)) \<and>
     processSubtree st root = foldl replaceInTextNode st (yielded (tree st) root n)"
proof (intro impI conjI allI)
  assume h: "node_at (tree st) root = Some n \<and> n \<noteq> Text"
  show "visited (tree st) root n
       = map (\<lambda>(q, m). (q, node_filter (tree st) q m)) (descendants root n)"
    by (rule visited_all)
  show "(q, m) \<in> set (descendants root n) \<longleftrightarrow>
              (\<exists>r. r \<noteq> [] \<and> q = root @ r \<and> node_at (tree st) q = Some m)" for q m
    using h by (intro descendants_iff) simp
  show "sorted_wrt document_order (map fst (descendants root n))"
    unfolding descendants_def by (rule nodes_sorted(2))
  show "yielded (tree st) root n
       = map fst (filter (\<lambda>(q, m). m = Text \<and>
                            \<not> isExcludedElement (tree st) (parentElement (tree st) q))
                    (descendants root n))"
    by (rule yielded_text)
  from h show "processSubtree st root = foldl replaceInTextNode st (yielded (tree st) root n)"
    by (cases n) (simp_all add: processSubtree_def)
qed

theorem scanner_traversal_witness:
  "node_at (tree demo_page) [0, 0, 0] = Some demo_body \<and> demo_body \<noteq> Text \<and>
   visited (tree demo_page) [0, 0, 0] demo_body
     = [([0, 0, 0, 0], FILTER_SKIP), ([0, 0, 0, 0, 0], FILTER_ACCEPT),
        ([0, 0, 0, 1], FILTER_SKIP), ([0, 0, 0, 1, 0], FILTER_REJECT),
        ([0, 0, 0, 2], FILTER_SKIP), ([0, 0, 0, 2, 0], FILTER_SKIP),
        ([0, 0, 0, 2, 0, 0], FILTER_REJECT)] \<and>
   yielded (tree demo_page) [0, 0, 0] demo_body = [[0, 0, 0, 0, 0]] \<and>
   processSubtree demo_page [0, 0, 0] = replaceInTextNode demo_page [0, 0, 0, 0, 0] \<and>
   writes (replaceInTextNode demo_page [0, 0, 0, 0, 0])
     = [([0, 0, 0, 0, 0], js ''I love Baklavas'')]"
proof -
  have h: "node_at (tree demo_page) [0, 0, 0] = Some demo_body" "demo_body \<noteq> Text"
    by code_simp+
  have v: "map (\<lambda>(q, m). (q, node_filter (tree demo_page) q m)) (descendants [0, 0, 0] demo_body)
     = [([0, 0, 0, 0], FILTER_SKIP), ([0, 0, 0, 0, 0], FILTER_ACCEPT),
        ([0, 0, 0, 1], FILTER_SKIP), ([0, 0, 0, 1, 0], FILTER_REJECT),
        ([0, 0, 0, 2], FILTER_SKIP), ([0, 0, 0, 2, 0], FILTER_SKIP),
        ([0, 0, 0, 2, 0, 0], FILTER_REJECT)]"
    by code_simp
  have y: "map fst (filter (\<lambda>(q, m). m = Text \<and>
              \<not> isExcludedElement (tree demo_page) (parentElement (tree demo_page) q))
            (descendants [0, 0, 0] demo_body)) = [[0, 0, 0, 0, 0]]"
    by code_simp
  have w: "writes (replaceInTextNode demo_page [0, 0, 0, 0, 0])
     = [([0, 0, 0, 0, 0], js ''I love Baklavas'')]"
    by code_simp
  from scanner_traversal [of demo_page "[0, 0, 0]" demo_body] h
  have "visited (tree demo_page) [0, 0, 0] demo_body
       = map (\<lambda>(q, m). (q, node_filter (tree demo_page) q m)) (descendants [0, 0, 0] demo_body)"
    and "yielded (tree demo_page) [0, 0, 0] demo_body
       = map fst (filter (\<lambda>(q, m). m = Text \<and>
              \<not> isExcludedElement (tree demo_page) (parentElement (tree demo_page) q))
            (descendants [0, 0, 0] demo_body))"
    and "processSubtree demo_page [0, 0, 0]
       = foldl replaceInTextNode demo_page (yielded (tree demo_page) [0, 0, 0] demo_body)"
    by simp_all
  with h v y w show ?thesis by simp
qed

section \<open>The shared expression across the calls of the engine\<close>

text \<open>
  Two states of the page show the same document when they differ at most in the \<open>lastIndex\<close>
  of the shared expression: the tree, the payloads and the log of writes are the same.
\<close>

definition same_document :: "page \<Rightarrow> page \<Rightarrow> bool" where
  "same_document st st' =
     (tree st' = tree st \<and> nodeValue st' = nodeValue st \<and> writes st' = writes st)"

lemma same_document_lastIndex: "same_document st (st\<lparr>lastIndex := li\<rparr>)"
  by (simp add: same_document_def)

lemma replaceInTextNode_same:
  "same_document st st' \<Longrightarrow> same_document (replaceInTextNode st node) (replaceInTextNode st' node)"
  by (simp add: same_document_def replaceInTextNode_def substitute_scan Let_def
      split: option.split)

lemma foldl_replaceInTextNode_same:
  "same_document st st' \<Longrightarrow>
     same_document (foldl replaceInTextNode st ns) (foldl replaceInTextNode st' ns)"
  by (induction ns arbitrary: st st') (simp_all add: replaceInTextNode_same)

lemma processSubtree_same:
  assumes "same_document st st'"
  shows "same_document (processSubtree st root) (processSubtree st' root)"
proof -
  from assms have t: "tree st' = tree st" by (simp add: same_document_def)
  show ?thesis
    unfolding processSubtree_def t
    by (simp add: assms replaceInTextNode_same foldl_replaceInTextNode_same
        split: option.split node.split)
qed

lemma foldl_processSubtree_same:
  "same_document st st' \<Longrightarrow>
     same_document (foldl processSubtree st rs) (foldl processSubtree st' rs)"
  by (induction rs arbitrary: st st') (simp_all add: processSubtree_same)

lemma handle_mutation_same:
  assumes "same_document st st'"
  shows "same_document (handle_mutation st m) (handle_mutation st' m)"
proof -
  from assms have t: "tree st' = tree st" by (simp add: same_document_def)
  show ?thesis
    unfolding handle_mutation_def t Let_def
    by (rule foldl_processSubtree_same)
      (simp add: assms replaceInTextNode_same split: option.split)
qed

lemma observer_callback_same:
  "same_document st st' \<Longrightarrow>
     same_document (observer_callback st ms) (observer_callback st' ms)"
  unfolding observer_callback_def
  by (induction ms arbitrary: st st') (simp_all add: handle_mutation_same)

lemma init_same:
  "same_document st st' \<Longrightarrow> same_document (init st body) (init st' body)"
  by (simp add: init_def processSubtree_same split: option.split)

text \<open>
  C9. Purity and determinism. The source uses the shared expression through \<open>replace\<close> only,
  and the expression has the flag \<open>g\<close> and not the flag \<open>y\<close>. So the string a call returns
  does not depend on the value \<open>lastIndex\<close> has before it, and the call leaves the object as
  the literal created it, \<open>lastIndex\<close> at 0: a call changes nothing that a later call could
  see. In any sequence of calls, whatever \<open>lastIndex\<close> was before the first, each result is
  the one a call on that input alone gives: equal inputs give equal results. The same holds
  of the functions of the source that make the calls: whatever earlier calls have left in
  \<open>lastIndex\<close>, the processor of one text node, the first scan and the observer's callback
  leave the same document.
\<close>

theorem substitute_deterministic:
  "fst (substitute li s) = fst (substitute li' s) \<and>
   snd (substitute li s) = 0 \<and>
   fst (RegExp_replace (WORD_REGEX li) s) = fst (RegExp_replace (WORD_REGEX li') s) \<and>
   snd (RegExp_replace (WORD_REGEX li) s) = WORD_REGEX 0 \<and>
   fst (invocations li ss) = map (\<lambda>s. fst (substitute li0 s)) ss \<and>
   same_document (replaceInTextNode st node) (replaceInTextNode (st\<lparr>lastIndex := li\<rparr>) node) \<and>
   same_document (init st body) (init (st\<lparr>lastIndex := li\<rparr>) body) \<and>
   same_document (observer_callback st ms) (observer_callback (st\<lparr>lastIndex := li\<rparr>) ms)"
  using invocations_map [of li ss li0]
  by (simp add: substitute_scan RegExp_replace_WORD_REGEX same_document_lastIndex
      replaceInTextNode_same init_same observer_callback_same)

theorem substitute_deterministic_witness:
  "fst (invocations 3 [js ''balaklava'', js ''BALAKLAVAS!'', js ''balaklava''])
     = [js ''baklava'', js ''BAKLAVAS!'', js ''baklava''] \<and>
   writes (replaceInTextNode (demo_page\<lparr>lastIndex := 3\<rparr>) [0, 0, 0, 0, 0])
     = [([0, 0, 0, 0, 0], js ''I love Baklavas'')]"
proof -
  have e: "fst (substitute 0 (js ''balaklava'')) = js ''baklava''"
    "fst (substitute 0 (js ''BALAKLAVAS!'')) = js ''BAKLAVAS!''"
    by code_simp+
  have w: "writes (replaceInTextNode demo_page [0, 0, 0, 0, 0])
     = [([0, 0, 0, 0, 0], js ''I love Baklavas'')]"
    by code_simp
  from substitute_deterministic [of 3 "js ''balaklava''" 0
      "[js ''balaklava'', js ''BALAKLAVAS!'', js ''balaklava'']" 0 demo_page "[0, 0, 0, 0, 0]"] e w
  show ?thesis by (simp add: same_document_def)
qed

end
